theory Spec2Isabelle
  imports Main
begin

section \<open>Pleco: the crawl engine of both variants\<close>

text \<open>
  The repository holds two variants of one crawler: \<^verbatim>\<open>index.js\<close> (the Beaker command
  \<^verbatim>\<open>pleco\<close>, with the class \<^verbatim>\<open>CrawlQueue\<close>) and the Node script (\<^verbatim>\<open>exhaustQueue\<close>,
  \<^verbatim>\<open>crawlHyper\<close>, \<^verbatim>\<open>addQueue\<close> over two module-level variables).

  A JavaScript string is a sequence of code units, and the regular expressions of the
  source carry no \<^verbatim>\<open>u\<close> flag, so they match code unit by code unit. A string is modelled
  as a \<^typ>\<open>string\<close>, one \<^typ>\<open>char\<close> per code unit below 256; every pattern of the source
  is ASCII.
\<close>

subsection \<open>Regular expressions\<close>

text \<open>The character class \<^verbatim>\<open>[0-9a-f]\<close>: two ranges of code units.\<close>

definition hexdigit :: "char \<Rightarrow> bool" where
  "hexdigit c =
     (let n = (of_char c :: nat) in (48 \<le> n \<and> n \<le> 57) \<or> (97 \<le> n \<and> n \<le> 102))"

text \<open>\<^verbatim>\<open>s.slice(b, e)\<close> for literal bounds \<open>0 \<le> b \<le> e\<close>: both bounds are clamped to the
  length of the string.\<close>

definition slice :: "string \<Rightarrow> nat \<Rightarrow> nat \<Rightarrow> string" where
  "slice s b e = take (e - b) (drop b s)"

text \<open>\<^verbatim>\<open>HYPER_SCHEME = /^hyper:/\<close>: the string begins with the six characters.\<close>

definition HYPER_SCHEME :: "string \<Rightarrow> bool" where
  "HYPER_SCHEME uri = (take 6 uri = ''hyper:'')"

text \<open>\<^verbatim>\<open>ED25519_KEY = /^[0-9a-f]{64}$/\<close>: without the \<^verbatim>\<open>m\<close> flag, \<^verbatim>\<open>^\<close> and \<^verbatim>\<open>$\<close> are the two
  ends of the input.\<close>

definition ED25519_KEY :: "string \<Rightarrow> bool" where
  "ED25519_KEY key = (length key = 64 \<and> list_all hexdigit key)"

text \<open>\<^verbatim>\<open>HYPER_URI_SCRAPER = /hyper:\/\/[0-9a-f]{64}/g\<close>, tried at the first character of
  \<open>t\<close>. A match is always 72 characters long.\<close>

definition HYPER_URI_SCRAPER :: "string \<Rightarrow> bool" where
  "HYPER_URI_SCRAPER t =
     (take 8 t = ''hyper://'' \<and> length (take 64 (drop 8 t)) = 64
      \<and> list_all hexdigit (take 64 (drop 8 t)))"

text \<open>A string ends with a given suffix (the anchor \<^verbatim>\<open>$\<close>).\<close>

definition ends_with :: "string \<Rightarrow> string \<Rightarrow> bool" where
  "ends_with s suf = (length suf \<le> length s \<and> drop (length s - length suf) s = suf)"

text \<open>\<^verbatim>\<open>SCRAPABLE_EXTS = /\.(html?|md|json|xml|js|css)$/\<close> of the Node script.\<close>

definition SCRAPABLE_EXTS :: "string \<Rightarrow> bool" where
  "SCRAPABLE_EXTS entry =
     list_ex (ends_with entry) [''.htm'', ''.html'', ''.md'', ''.json'', ''.xml'', ''.js'', ''.css'']"

text \<open>\<^verbatim>\<open>/\.(html?|md|xml|js(on)?|css)$/\<close> of \<^verbatim>\<open>filterScrapable\<close> in \<^verbatim>\<open>index.js\<close>.\<close>

definition select_extensions :: "string \<Rightarrow> bool" where
  "select_extensions entry =
     list_ex (ends_with entry) [''.htm'', ''.html'', ''.md'', ''.xml'', ''.js'', ''.json'', ''.css'']"

text \<open>
  \<^verbatim>\<open>/(^|\/)(node_modules|.git)/\<close> of \<^verbatim>\<open>filterScrapable\<close>. The second group, tried at the first
  character of \<open>t\<close>: the literal \<^verbatim>\<open>node_modules\<close>, or any one character that is not a line
  terminator (the unescaped \<^verbatim>\<open>.\<close>) followed by \<^verbatim>\<open>git\<close>.
\<close>

definition line_terminator :: "char \<Rightarrow> bool" where
  "line_terminator c = (c = CHR 0x0A \<or> c = CHR 0x0D)"

definition ignored_name :: "string \<Rightarrow> bool" where
  "ignored_name t =
     (take 12 t = ''node_modules''
      \<or> (case t of [] \<Rightarrow> False | c # cs \<Rightarrow> \<not> line_terminator c \<and> take 3 cs = ''git''))"

text \<open>The first group at a later position: a slash, then the second group.\<close>

fun ignored_after_slash :: "string \<Rightarrow> bool" where
  "ignored_after_slash [] = False"
| "ignored_after_slash (c # cs) = ((c = CHR ''/'' \<and> ignored_name cs) \<or> ignored_after_slash cs)"

text \<open>The whole pattern, searched in the entry: \<^verbatim>\<open>^\<close> holds at position 0 only.\<close>

definition ignored :: "string \<Rightarrow> bool" where
  "ignored entry = (ignored_name entry \<or> ignored_after_slash entry)"

subsection \<open>Address extraction\<close>

text \<open>\<^verbatim>\<open>extractKey(uri)\<close>, the same in both variants; \<^verbatim>\<open>null\<close> is \<open>None\<close>.\<close>

definition extractKey :: "string \<Rightarrow> string option" where
  "extractKey uri =
     (let key = (if HYPER_SCHEME uri then slice uri 8 72 else slice uri 0 64)
      in if ED25519_KEY key then Some key else None)"

text \<open>
  \<^verbatim>\<open>text.match(HYPER_URI_SCRAPER) || []\<close>: with the \<^verbatim>\<open>g\<close> flag, \<^verbatim>\<open>match\<close> starts at index 0,
  takes the leftmost match, goes on behind it, and returns all matched substrings
  (\<^verbatim>\<open>null\<close>, replaced by the empty array, when there is none).
\<close>

fun scrapeURIs :: "string \<Rightarrow> string list" where
  "scrapeURIs [] = []"
| "scrapeURIs (c # cs) =
     (if HYPER_URI_SCRAPER (c # cs) then take 72 (c # cs) # scrapeURIs (drop 71 cs)
      else scrapeURIs cs)"

text \<open>\<^verbatim>\<open>scrapeHyperAddresses\<close> of \<^verbatim>\<open>index.js\<close> is the same function under another name.\<close>

definition scrapeHyperAddresses :: "string \<Rightarrow> string list" where
  "scrapeHyperAddresses text = scrapeURIs text"

subsection \<open>Scrape policy of \<^verbatim>\<open>index.js\<close>\<close>

definition filterScrapable :: "string list \<Rightarrow> string list" where
  "filterScrapable entries =
     filter select_extensions (filter (\<lambda>entry. \<not> ignored entry) entries)"

subsection \<open>The crawl queue\<close>

text \<open>
  The two private fields of \<^verbatim>\<open>CrawlQueue\<close>: the array \<^verbatim>\<open>#queue\<close> (\<^verbatim>\<open>push\<close> appends at the
  end, \<^verbatim>\<open>pop\<close> removes the last element) and the set \<^verbatim>\<open>#crawlSet\<close>. The Node script keeps
  the same two values in the module variables \<^verbatim>\<open>queue\<close> and \<^verbatim>\<open>crawled\<close>.
\<close>

record CrawlQueue =
  queue :: "string list"
  crawlSet :: "string set"

definition new_CrawlQueue :: CrawlQueue where
  "new_CrawlQueue = \<lparr>queue = [], crawlSet = {}\<rparr>"

text \<open>\<^verbatim>\<open>add(...uriList)\<close>: the loop with its counter, then the method.\<close>

fun add_loop :: "string list \<Rightarrow> CrawlQueue \<Rightarrow> nat \<Rightarrow> CrawlQueue \<times> nat" where
  "add_loop [] q count = (q, count)"
| "add_loop (uri # uriList) q count =
     (case extractKey uri of
        None \<Rightarrow> add_loop uriList q count
      | Some key \<Rightarrow>
          if key \<in> set (queue q) then add_loop uriList q count
          else if key \<in> crawlSet q then add_loop uriList q count
          else add_loop uriList (q\<lparr>queue := queue q @ [key]\<rparr>) (count + 1))"

definition add :: "CrawlQueue \<Rightarrow> string list \<Rightarrow> CrawlQueue \<times> nat" where
  "add q uriList = add_loop uriList q 0"

text \<open>\<^verbatim>\<open>addQueue(...uriList)\<close> of the Node script has the same body.\<close>

fun addQueue_loop :: "string list \<Rightarrow> CrawlQueue \<Rightarrow> nat \<Rightarrow> CrawlQueue \<times> nat" where
  "addQueue_loop [] m count = (m, count)"
| "addQueue_loop (uri # uriList) m count =
     (case extractKey uri of
        None \<Rightarrow> addQueue_loop uriList m count
      | Some key \<Rightarrow>
          if key \<in> set (queue m) then addQueue_loop uriList m count
          else if key \<in> crawlSet m then addQueue_loop uriList m count
          else addQueue_loop uriList (m\<lparr>queue := queue m @ [key]\<rparr>) (count + 1))"

definition addQueue :: "CrawlQueue \<Rightarrow> string list \<Rightarrow> CrawlQueue \<times> nat" where
  "addQueue m uriList = addQueue_loop uriList m 0"

text \<open>
  One round of the generator \<^verbatim>\<open>*[Symbol.iterator]\<close>: \<open>None\<close> when the queue is empty
  (the generator returns), else the key popped from the end, recorded in \<^verbatim>\<open>#crawlSet\<close>
  before it is yielded.
\<close>

definition iterator_next :: "CrawlQueue \<Rightarrow> (string \<times> CrawlQueue) option" where
  "iterator_next q =
     (if queue q = [] then None
      else let key = last (queue q);
               q1 = q\<lparr>queue := butlast (queue q)\<rparr>;
               q2 = q1\<lparr>crawlSet := insert key (crawlSet q1)\<rparr>
           in Some (key, q2))"

subsection \<open>The drives\<close>

text \<open>
  What the crawl reads of a drive handle, each call either returning or throwing
  (\<open>None\<close>): \<^verbatim>\<open>readdir("/", { recursive: true })\<close>, \<^verbatim>\<open>readFile(path)\<close> and
  \<^verbatim>\<open>stat(path)\<close>, whose \<^verbatim>\<open>mount\<close> is absent (\<open>Some None\<close>) or holds a key. The handle of
  a key comes from \<^verbatim>\<open>beaker.hyperdrive.drive(key)\<close> in \<^verbatim>\<open>index.js\<close> and from
  \<^verbatim>\<open>client.drive.get({ key })\<close> in the Node script: a function from keys to
  optional handles, \<open>None\<close> when the call throws. The drives answer the same way every time
  they are asked, and the key of a mount is a string. The limit of a JavaScript engine on
  the number of arguments of one call (\<^verbatim>\<open>add(...uriList)\<close>) is left out.
\<close>

record drive =
  readdir :: "string list option"
  readFile :: "string \<Rightarrow> string option"
  stat :: "string \<Rightarrow> string option option"

subsection \<open>The command \<^verbatim>\<open>pleco\<close> of \<^verbatim>\<open>index.js\<close>\<close>

text \<open>\<^verbatim>\<open>filterMounts(drive, entries)\<close>: a \<^verbatim>\<open>stat\<close> that throws adds nothing.\<close>

fun filterMounts :: "drive \<Rightarrow> string list \<Rightarrow> string list" where
  "filterMounts d [] = []"
| "filterMounts d (entry # entries) =
     (case stat d (''/'' @ entry) of
        None \<Rightarrow> filterMounts d entries
      | Some None \<Rightarrow> filterMounts d entries
      | Some (Some key) \<Rightarrow> key # filterMounts d entries)"

text \<open>The loop over the targets: a \<^verbatim>\<open>readFile\<close> that throws is caught, and the loop
  goes on with the next target.\<close>

fun scrape_targets :: "drive \<Rightarrow> string list \<Rightarrow> CrawlQueue \<Rightarrow> CrawlQueue" where
  "scrape_targets d [] q = q"
| "scrape_targets d (target # targets) q =
     (case readFile d target of
        None \<Rightarrow> scrape_targets d targets q
      | Some text \<Rightarrow> scrape_targets d targets (fst (add q (scrapeHyperAddresses text))))"

text \<open>The \<^verbatim>\<open>try\<close> block \<^verbatim>\<open>// Crawl\<close>: when the handle or the listing throws, nothing is
  added.\<close>

definition crawl :: "(string \<Rightarrow> drive option) \<Rightarrow> string \<Rightarrow> CrawlQueue \<Rightarrow> CrawlQueue" where
  "crawl hyperdrive key q =
     (case hyperdrive key of
        None \<Rightarrow> q
      | Some d \<Rightarrow>
          (case readdir d of
             None \<Rightarrow> q
           | Some entries \<Rightarrow>
               let q1 = scrape_targets d (filterScrapable entries) q
               in fst (add q1 (filterMounts d entries))))"

text \<open>
  What the command reads of its surroundings: \<^verbatim>\<open>options.mount\<close>, the mounts of the index
  drive, whether \<^verbatim>\<open>indexDrive.mount(key, key)\<close> returns, and the drives. Its variables:
  the queue, the counter \<^verbatim>\<open>mounted\<close>, and the keys printed by the first statement of the
  loop body, in order.
\<close>

record pleco_env =
  mount_option :: bool
  indexMounts :: "string list"
  index_mount :: "string \<Rightarrow> bool"
  hyperdrive :: "string \<Rightarrow> drive option"

record pleco_state =
  crawl_queue :: CrawlQueue
  mounted :: nat
  printed :: "string list"

definition loop_body :: "pleco_env \<Rightarrow> string \<Rightarrow> pleco_state \<Rightarrow> pleco_state" where
  "loop_body e key s =
     (let s1 = s\<lparr>printed := printed s @ [key]\<rparr>;
          s2 = (if mount_option e \<and> key \<notin> set (indexMounts e)
                then (if index_mount e key then s1\<lparr>mounted := mounted s1 + 1\<rparr> else s1)
                else s1)
      in s2\<lparr>crawl_queue := crawl (hyperdrive e) key (crawl_queue s2)\<rparr>)"

text \<open>\<^verbatim>\<open>for (const key of queue) { ... }\<close>: each round asks the generator for the next key.\<close>

partial_function (option) pleco_loop :: "pleco_env \<Rightarrow> pleco_state \<Rightarrow> pleco_state option" where
  "pleco_loop e s =
     (case iterator_next (crawl_queue s) of
        None \<Rightarrow> Some s
      | Some (key, q) \<Rightarrow> pleco_loop e (loop_body e key (s\<lparr>crawl_queue := q\<rparr>)))"

declare pleco_loop.simps [code]

text \<open>The command from \<^verbatim>\<open>queue.add(cwd)\<close> on.\<close>

definition pleco :: "pleco_env \<Rightarrow> string \<Rightarrow> pleco_state option" where
  "pleco e cwd =
     pleco_loop e \<lparr>crawl_queue = fst (add new_CrawlQueue [cwd]), mounted = 0, printed = []\<rparr>"

subsection \<open>The Node script\<close>

text \<open>\<^verbatim>\<open>HTTP_SCHEME = /^https?:/\<close>.\<close>

definition HTTP_SCHEME :: "string \<Rightarrow> bool" where
  "HTTP_SCHEME uri = (take 5 uri = ''http:'' \<or> take 6 uri = ''https:'')"

text \<open>
  The working memory (\<^verbatim>\<open>crawled\<close> is the field \<open>crawlSet\<close>, \<^verbatim>\<open>queue\<close> the field \<open>queue\<close>), and
  the keys of the lines \<^verbatim>\<open>Crawling <key>\<close> written to the console, in order.
\<close>

record process =
  memory :: CrawlQueue
  console :: "string list"

text \<open>The loop over the entries of \<^verbatim>\<open>crawlHyper\<close>.\<close>

fun scrape_entries :: "drive \<Rightarrow> string list \<Rightarrow> CrawlQueue \<Rightarrow> CrawlQueue" where
  "scrape_entries d [] m = m"
| "scrape_entries d (entry # entries) m =
     (case readFile d entry of
        None \<Rightarrow> scrape_entries d entries m
      | Some text \<Rightarrow> scrape_entries d entries (fst (addQueue m (scrapeURIs text))))"

text \<open>\<^verbatim>\<open>crawlHyper(key)\<close>: the \<^verbatim>\<open>try\<close> block, then \<^verbatim>\<open>crawled.add(key)\<close> of the
  \<^verbatim>\<open>finally\<close> block.\<close>

definition crawlHyper :: "(string \<Rightarrow> drive option) \<Rightarrow> string \<Rightarrow> process \<Rightarrow> process" where
  "crawlHyper client key p =
     (let p1 = p\<lparr>console := console p @ [key]\<rparr>;
          m = (case client key of
                 None \<Rightarrow> memory p1
               | Some d \<Rightarrow>
                   (case readdir d of
                      None \<Rightarrow> memory p1
                    | Some listing \<Rightarrow> scrape_entries d (filter SCRAPABLE_EXTS listing) (memory p1)))
      in p1\<lparr>memory := m\<lparr>crawlSet := insert key (crawlSet m)\<rparr>\<rparr>)"

partial_function (option) exhaustQueue :: "(string \<Rightarrow> drive option) \<Rightarrow> process \<Rightarrow> process option" where
  "exhaustQueue client p =
     (if queue (memory p) = [] then Some p
      else let key = last (queue (memory p));
               p1 = p\<lparr>memory := (memory p)\<lparr>queue := butlast (queue (memory p))\<rparr>\<rparr>
           in exhaustQueue client (crawlHyper client key p1))"

declare exhaustQueue.simps [code]

text \<open>\<^verbatim>\<open>exhaustInput\<close> over the arguments \<^verbatim>\<open>argv._\<close>; \<open>fetch\<close> is the text of an HTTP
  resource, \<open>None\<close> when \<^verbatim>\<open>crawlHttp\<close> rejects.\<close>

fun exhaustInput :: "(string \<Rightarrow> string option) \<Rightarrow> string list \<Rightarrow> CrawlQueue \<Rightarrow> CrawlQueue" where
  "exhaustInput fetch [] m = m"
| "exhaustInput fetch (uri # uris) m =
     (if HTTP_SCHEME uri then
        (case fetch uri of
           None \<Rightarrow> exhaustInput fetch uris m
         | Some text \<Rightarrow> exhaustInput fetch uris (fst (addQueue m (scrapeURIs text))))
      else if HYPER_SCHEME uri then exhaustInput fetch uris (fst (addQueue m [uri]))
      else exhaustInput fetch uris m)"

definition main :: "(string \<Rightarrow> string option) \<Rightarrow> (string \<Rightarrow> drive option) \<Rightarrow> string list \<Rightarrow> process option" where
  "main fetch client argv =
     exhaustQueue client \<lparr>memory = exhaustInput fetch argv new_CrawlQueue, console = []\<rparr>"

section \<open>Notions for the statements\<close>

subsection \<open>The words of the specification\<close>

text \<open>A Key: a 64-character lowercase hexadecimal string.\<close>

definition hex_chars :: "char set" where
  "hex_chars = set ''0123456789abcdef''"

definition Key :: "string \<Rightarrow> bool" where
  "Key k = (length k = 64 \<and> set k \<subseteq> hex_chars)"

text \<open>
  \<open>normalizeKey\<close> in the specification's words: if the reference starts with the
  \<^verbatim>\<open>hyper://\<close> scheme marker, take the 64 characters immediately following it; otherwise
  take the first 64 characters of the reference verbatim; validate the result against the
  exact lowercase-hex-64 pattern.
\<close>

definition normalizeKey :: "string \<Rightarrow> string option" where
  "normalizeKey ref =
     (let candidate = (if take 8 ref = ''hyper://'' then take 64 (drop 8 ref) else take 64 ref)
      in if Key candidate then Some candidate else None)"

text \<open>
  An address as \<open>scrapeAddresses\<close> looks for it: \<^verbatim>\<open>hyper://\<close> followed by exactly 64 lowercase
  hexadecimal characters; and an occurrence of one in a text at a position.
\<close>

definition address :: "string \<Rightarrow> bool" where
  "address m = (length m = 72 \<and> take 8 m = ''hyper://'' \<and> set (drop 8 m) \<subseteq> hex_chars)"

definition occurs_at :: "string \<Rightarrow> nat \<Rightarrow> bool" where
  "occurs_at text i = address (take 72 (drop i text))"

text \<open>
  The scrape policy in the specification's words: a path is excluded when one of its
  segments, at any depth, equals \<^verbatim>\<open>node_modules\<close> or \<^verbatim>\<open>.git\<close>; it is scrapable when its
  extension is in the fixed list and it is not excluded.
\<close>

fun segments :: "string \<Rightarrow> string list" where
  "segments [] = [[]]"
| "segments (c # cs) =
     (if c = CHR ''/'' then [] # segments cs
      else (case segments cs of [] \<Rightarrow> [[c]] | seg # segs \<Rightarrow> (c # seg) # segs))"

definition isExcludedPath :: "string \<Rightarrow> bool" where
  "isExcludedPath path = list_ex (\<lambda>seg. seg = ''node_modules'' \<or> seg = ''.git'') (segments path)"

definition isScrapable :: "string \<Rightarrow> bool" where
  "isScrapable path =
     (list_ex (ends_with path) [''.htm'', ''.html'', ''.md'', ''.xml'', ''.json'', ''.js'', ''.css'']
      \<and> \<not> isExcludedPath path)"

subsection \<open>What a crawl adds\<close>

text \<open>The keys that a call of \<^verbatim>\<open>add\<close> appends, given the keys queued or crawled so far.\<close>

fun novel :: "string set \<Rightarrow> string list \<Rightarrow> string list" where
  "novel seen [] = []"
| "novel seen (uri # uriList) =
     (case extractKey uri of
        None \<Rightarrow> novel seen uriList
      | Some key \<Rightarrow> if key \<in> seen then novel seen uriList else key # novel (insert key seen) uriList)"

text \<open>
  The references that the crawl of one drive hands to \<^verbatim>\<open>add\<close>, in the order of the calls: the
  addresses scraped from the files that can be read, then (in \<^verbatim>\<open>index.js\<close>) the mounts. A
  drive whose handle or listing throws yields none.
\<close>

definition scraped :: "drive \<Rightarrow> string list \<Rightarrow> string list" where
  "scraped d paths =
     concat (map (\<lambda>path. case readFile d path of None \<Rightarrow> [] | Some text \<Rightarrow> scrapeURIs text) paths)"

definition discovered :: "(string \<Rightarrow> drive option) \<Rightarrow> string \<Rightarrow> string list" where
  "discovered w key =
     (case w key of
        None \<Rightarrow> []
      | Some d \<Rightarrow>
          (case readdir d of
             None \<Rightarrow> []
           | Some entries \<Rightarrow> scraped d (filterScrapable entries) @ filterMounts d entries))"

definition discovered_node :: "(string \<Rightarrow> drive option) \<Rightarrow> string \<Rightarrow> string list" where
  "discovered_node w key =
     (case w key of
        None \<Rightarrow> []
      | Some d \<Rightarrow>
          (case readdir d of
             None \<Rightarrow> []
           | Some listing \<Rightarrow> scraped d (filter SCRAPABLE_EXTS listing)))"

text \<open>The keys among a list of references.\<close>

definition keys_of :: "string list \<Rightarrow> string set" where
  "keys_of uris = set (List.map_filter extractKey uris)"

subsection \<open>Invariants\<close>

text \<open>The Frontier invariant: no key is queued twice, and no queued key is crawled.\<close>

definition frontier_inv :: "CrawlQueue \<Rightarrow> bool" where
  "frontier_inv q = (distinct (queue q) \<and> set (queue q) \<inter> crawlSet q = {})"

text \<open>
  A frontier is explored when every key that a crawled drive refers to is queued or
  crawled. The first argument is \<open>discovered\<close> or \<open>discovered_node\<close>.
\<close>

definition explored ::
  "((string \<Rightarrow> drive option) \<Rightarrow> string \<Rightarrow> string list) \<Rightarrow> (string \<Rightarrow> drive option) \<Rightarrow> CrawlQueue \<Rightarrow> bool" where
  "explored disc w q = (\<forall>k \<in> crawlSet q. keys_of (disc w k) \<subseteq> set (queue q) \<union> crawlSet q)"

text \<open>In the Node script, the key \<open>k\<close> has been crawled at most once, and is not queued
  again.\<close>

definition once :: "string \<Rightarrow> process \<Rightarrow> bool" where
  "once k p =
     (distinct (queue (memory p))
      \<and> (k \<in> crawlSet (memory p) \<longrightarrow> k \<notin> set (queue (memory p)))
      \<and> (k \<in> set (console p) \<longrightarrow> k \<in> crawlSet (memory p))
      \<and> count_list (console p) k \<le> 1)"

subsection \<open>Synthetic drives\<close>

definition key_a :: string where
  "key_a = replicate 64 CHR ''a''"

definition key_b :: string where
  "key_b = replicate 64 CHR ''b''"

text \<open>A drive with the one file \<^verbatim>\<open>index.html\<close> and no mount.\<close>

definition page :: "string \<Rightarrow> drive" where
  "page text =
     \<lparr>readdir = Some [''index.html''],
      readFile = (\<lambda>path. if path = ''index.html'' then Some text else None),
      stat = (\<lambda>path. Some None)\<rparr>"

text \<open>Two drives that reference each other, and one drive that references itself.\<close>

definition cycle :: "string \<Rightarrow> drive option" where
  "cycle key =
     (if key = key_a then Some (page (''see hyper://'' @ key_b))
      else if key = key_b then Some (page (''back to hyper://'' @ key_a))
      else None)"

definition selfref :: "string \<Rightarrow> drive option" where
  "selfref key = (if key = key_a then Some (page (''home: hyper://'' @ key_a)) else None)"

definition plain_env :: "(string \<Rightarrow> drive option) \<Rightarrow> pleco_env" where
  "plain_env w =
     \<lparr>mount_option = False, indexMounts = [], index_mount = (\<lambda>key. False), hyperdrive = w\<rparr>"

text \<open>A drive with a file that cannot be read and a \<^verbatim>\<open>stat\<close> that throws, which refers to
  a drive whose listing throws.\<close>

definition broken :: "string \<Rightarrow> drive option" where
  "broken key =
     (if key = key_a then
        Some \<lparr>readdir = Some [''notes.md'', ''index.html''],
              readFile = (\<lambda>path. if path = ''index.html'' then Some (''hyper://'' @ key_b) else None),
              stat = (\<lambda>path. None)\<rparr>
      else if key = key_b then
        Some \<lparr>readdir = None, readFile = (\<lambda>path. None), stat = (\<lambda>path. None)\<rparr>
      else None)"

section \<open>Keys and \<^verbatim>\<open>extractKey\<close>\<close>

lemma hexdigit_code_cases:
  assumes "(48::nat) \<le> n \<and> n \<le> 57 \<or> 97 \<le> n \<and> n \<le> 102"
  shows "n \<in> {48, 49, 50, 51, 52, 53, 54, 55, 56, 57, 97, 98, 99, 100, 101, 102}"
  using assms by simp arith

lemma of_char_hex:
  assumes "(of_char c :: nat) \<in> of_char ` hex_chars"
  shows "c \<in> hex_chars"
  using assms by (auto simp only: of_char_eq_iff)

lemma hexdigit_iff: "hexdigit c \<longleftrightarrow> c \<in> hex_chars"
proof
  assume "hexdigit c"
  then have "(of_char c :: nat) \<in> {48, 49, 50, 51, 52, 53, 54, 55, 56, 57, 97, 98, 99, 100, 101, 102}"
    unfolding hexdigit_def Let_def by (rule hexdigit_code_cases)
  also have "{48, 49, 50, 51, 52, 53, 54, 55, 56, 57, 97, 98, 99, 100, 101, 102} = (of_char ` hex_chars :: nat set)"
    by (simp add: hex_chars_def)
  finally show "c \<in> hex_chars"
    by (rule of_char_hex)
next
  assume "c \<in> hex_chars"
  then show "hexdigit c"
    by (auto simp: hex_chars_def hexdigit_def)
qed

lemma ED25519_KEY_iff: "ED25519_KEY k \<longleftrightarrow> Key k"
  by (auto simp: ED25519_KEY_def Key_def hexdigit_iff list_all_iff)


lemma extractKey_eq:
  "extractKey uri =
     (let candidate = (if take 6 uri = ''hyper:'' then take 64 (drop 8 uri) else take 64 uri)
      in if Key candidate then Some candidate else None)"
  by (simp add: extractKey_def HYPER_SCHEME_def slice_def ED25519_KEY_iff)

lemma take_6_of_8:
  assumes "take 8 (uri :: string) = ''hyper://''"
  shows "take 6 uri = ''hyper:''"
proof -
  have "take 6 uri = take 6 (take 8 uri)" by simp
  also have "\<dots> = ''hyper:''" unfolding assms by simp
  finally show ?thesis .
qed

lemma extractKey_normalizeKey:
  assumes "take 8 uri = ''hyper://'' \<or> take 6 uri \<noteq> ''hyper:''"
  shows "extractKey uri = normalizeKey uri"
  using assms take_6_of_8 [of uri]
  by (auto simp: extractKey_eq normalizeKey_def Let_def)

lemma Key_replicate: "Key (replicate 64 c) \<longleftrightarrow> c \<in> hex_chars"
  by (simp add: Key_def)

lemma Key_not_scheme:
  assumes "Key k"
  shows "take 6 k \<noteq> ''hyper:''"
proof
  assume h: "take 6 k = ''hyper:''"
  from assms have "k \<noteq> []" by (auto simp: Key_def)
  then obtain c cs where k: "k = c # cs" by (cases k) auto
  with h have "c = CHR ''h''" by simp
  with k assms show False by (simp add: Key_def hex_chars_def)
qed

lemma extractKey_Key:
  assumes "Key k"
  shows "extractKey k = Some k"
  using assms Key_not_scheme [OF assms] by (simp add: extractKey_eq Key_def)

lemma extractKey_Some_Key: "extractKey uri = Some k \<Longrightarrow> Key k"
  by (auto simp: extractKey_eq Let_def split: if_splits)

lemma extractKey_upper: "extractKey (replicate 64 CHR ''A'') = None"
  by code_simp

lemma extractKey_scheme_only:
  "extractKey (''hyper:xx'' @ replicate 64 CHR ''a'') = Some (replicate 64 CHR ''a'')"
  by (simp add: extractKey_eq Key_replicate hex_chars_def)

lemma normalizeKey_scheme_only:
  "normalizeKey (''hyper:xx'' @ replicate 64 CHR ''a'') = None"
  by (simp add: normalizeKey_def Key_def hex_chars_def)

text \<open>
  C4, as the code has it. \<^verbatim>\<open>extractKey\<close> tests the scheme \<^verbatim>\<open>hyper:\<close> alone (the two slashes
  are not looked at) and then takes the characters at offsets 8 to 71; otherwise it takes
  the first 64 characters. The candidate is returned when it is exactly 64 characters of
  \<^verbatim>\<open>0-9a-f\<close>, and \<open>None\<close> otherwise, as for 64 upper-case letters \<^verbatim>\<open>A\<close>. On every input
  that starts with \<^verbatim>\<open>hyper://\<close> or does not start with \<^verbatim>\<open>hyper:\<close>, this is \<open>normalizeKey\<close>.
\<close>

theorem extractKey_specification:
  "extractKey uri =
     (let candidate = (if take 6 uri = ''hyper:'' then take 64 (drop 8 uri) else take 64 uri)
      in if Key candidate then Some candidate else None)
   \<and> (take 8 uri = ''hyper://'' \<or> take 6 uri \<noteq> ''hyper:'' \<longrightarrow> extractKey uri = normalizeKey uri)
   \<and> extractKey (replicate 64 CHR ''A'') = None"
  using extractKey_eq [of uri] extractKey_normalizeKey [of uri] extractKey_upper by blast

theorem extractKey_specification_witness:
  "take 8 (''hyper://'' @ key_a) = ''hyper://''
   \<and> extractKey (''hyper://'' @ key_a) = normalizeKey (''hyper://'' @ key_a)
   \<and> extractKey (''hyper://'' @ key_a) = Some key_a"
proof -
  have m: "take 8 (''hyper://'' @ key_a) = ''hyper://''" by simp
  have n: "normalizeKey (''hyper://'' @ key_a) = Some key_a"
    by (simp add: normalizeKey_def key_a_def Key_replicate hex_chars_def)
  from m extractKey_specification [of "''hyper://'' @ key_a"]
  have e: "extractKey (''hyper://'' @ key_a) = normalizeKey (''hyper://'' @ key_a)" by blast
  from e n have "extractKey (''hyper://'' @ key_a) = Some key_a" by (rule trans)
  with m e show ?thesis by blast
qed

text \<open>
  C4 as it is written fails: a reference that starts with \<^verbatim>\<open>hyper:\<close> but not with
  \<^verbatim>\<open>hyper://\<close> is cut behind its eighth character by the code, and at its 64th by the
  specification's \<open>normalizeKey\<close>.
\<close>

theorem extractKey_scheme_counterexample:
  "extractKey (''hyper:xx'' @ replicate 64 CHR ''a'') \<noteq> normalizeKey (''hyper:xx'' @ replicate 64 CHR ''a'')"
  unfolding extractKey_scheme_only normalizeKey_scheme_only by simp

section \<open>The queue operation \<^verbatim>\<open>add\<close>\<close>

lemma add_loop_novel:
  "add_loop uriList q n =
     (q\<lparr>queue := queue q @ novel (set (queue q) \<union> crawlSet q) uriList\<rparr>,
      n + length (novel (set (queue q) \<union> crawlSet q) uriList))"
proof (induction uriList arbitrary: q n)
  case Nil
  show ?case by simp
next
  case (Cons uri uriList)
  show ?case
  proof (cases "extractKey uri")
    case None
    then show ?thesis by (simp add: Cons.IH)
  next
    case (Some key)
    then show ?thesis by (simp add: Cons.IH Un_commute insert_absorb)
  qed
qed

lemma addQueue_loop_add_loop: "addQueue_loop uriList m n = add_loop uriList m n"
  by (induction uriList arbitrary: m n) (simp_all split: option.splits)

lemma addQueue_add: "addQueue = add"
  by (simp add: fun_eq_iff addQueue_def add_def addQueue_loop_add_loop)

lemma add_novel:
  "add q uriList =
     (q\<lparr>queue := queue q @ novel (set (queue q) \<union> crawlSet q) uriList\<rparr>,
      length (novel (set (queue q) \<union> crawlSet q) uriList))"
  by (simp add: add_def add_loop_novel)

lemma novel_disjoint: "set (novel seen uriList) \<inter> seen = {}"
  by (induction uriList arbitrary: seen) (auto split: option.splits)

lemma novel_distinct: "distinct (novel seen uriList)"
proof (induction uriList arbitrary: seen)
  case Nil
  show ?case by simp
next
  case (Cons uri uriList)
  show ?case
  proof (cases "extractKey uri")
    case None
    then show ?thesis by (simp add: Cons.IH)
  next
    case (Some key)
    have "key \<notin> set (novel (insert key seen) uriList)"
      using novel_disjoint [of "insert key seen" uriList] by auto
    with Some show ?thesis by (simp add: Cons.IH)
  qed
qed

lemma novel_subset: "set (novel seen uriList) \<subseteq> {k. \<exists>u \<in> set uriList. extractKey u = Some k}"
  by (induction uriList arbitrary: seen) (auto split: option.splits)

lemma novel_append:
  "novel seen (xs @ ys) = novel seen xs @ novel (seen \<union> set (novel seen xs)) ys"
  by (induction xs arbitrary: seen) (auto split: option.splits)


lemma Key_key_a: "Key key_a"
  by (simp add: key_a_def Key_replicate hex_chars_def)

lemma Key_key_b: "Key key_b"
  by (simp add: key_b_def Key_replicate hex_chars_def)

lemma key_a_neq_key_b: "key_a \<noteq> key_b"
  by (simp add: key_a_def key_b_def)

lemma add_twice:
  assumes "Key k"
  shows "add new_CrawlQueue [k, k] = (\<lparr>queue = [k], crawlSet = {}\<rparr>, 1)"
  by (simp add: add_novel new_CrawlQueue_def extractKey_Key [OF assms])

lemma add_crawled:
  assumes "Key k" and "k \<in> crawlSet q"
  shows "add q [k] = (q, 0)"
  using assms by (simp add: add_novel extractKey_Key)

lemma add_after_next:
  assumes "Key k" and "iterator_next q = Some (k, q1)"
  shows "add q1 [k] = (q1, 0)"
proof -
  from assms(2) have "k \<in> crawlSet q1"
    by (auto simp: iterator_next_def Let_def split: if_splits)
  with assms(1) show ?thesis by (rule add_crawled)
qed

text \<open>
  C8. The number that \<^verbatim>\<open>add\<close> returns is the number of keys it appended to the queue, whose
  old content stays in front. Adding one valid Key twice in one call to an empty queue
  appends it once and returns 1. Adding a Key that is in the crawl set changes nothing and
  returns 0, in particular for a Key that the iterator has just handed out. The same holds
  for \<^verbatim>\<open>addQueue\<close>.
\<close>

theorem add_count_and_dedup:
  "length (queue (fst (add q uriList))) = length (queue q) + snd (add q uriList)
   \<and> take (length (queue q)) (queue (fst (add q uriList))) = queue q
   \<and> (Key k \<longrightarrow> add new_CrawlQueue [k, k] = (\<lparr>queue = [k], crawlSet = {}\<rparr>, 1))
   \<and> (Key k \<longrightarrow> k \<in> crawlSet q \<longrightarrow> add q [k] = (q, 0))
   \<and> (Key k \<longrightarrow> iterator_next q = Some (k, q1) \<longrightarrow> add q1 [k] = (q1, 0))
   \<and> addQueue q uriList = add q uriList"
  using add_twice [of k] add_crawled [of k q] add_after_next [of k q q1]
  by (simp add: add_novel addQueue_add)

theorem add_count_and_dedup_witness:
  "Key key_a
   \<and> add new_CrawlQueue [key_a, key_a] = (\<lparr>queue = [key_a], crawlSet = {}\<rparr>, 1)
   \<and> iterator_next \<lparr>queue = [key_a], crawlSet = {}\<rparr> = Some (key_a, \<lparr>queue = [], crawlSet = {key_a}\<rparr>)
   \<and> add \<lparr>queue = [], crawlSet = {key_a}\<rparr> [key_a] = (\<lparr>queue = [], crawlSet = {key_a}\<rparr>, 0)"
proof -
  have n: "iterator_next \<lparr>queue = [key_a], crawlSet = {}\<rparr> = Some (key_a, \<lparr>queue = [], crawlSet = {key_a}\<rparr>)"
    by (simp add: iterator_next_def)
  from Key_key_a n
    add_count_and_dedup [of "\<lparr>queue = [key_a], crawlSet = {}\<rparr>" "[]" key_a "\<lparr>queue = [], crawlSet = {key_a}\<rparr>"]
  show ?thesis by simp
qed

text \<open>
  C10. \<^verbatim>\<open>add\<close> and \<^verbatim>\<open>addQueue\<close> leave the crawl set as it is, whatever the queue and the
  arguments are.
\<close>

theorem add_keeps_crawlSet:
  "crawlSet (fst (add q uriList)) = crawlSet q \<and> crawlSet (fst (addQueue q uriList)) = crawlSet q"
  by (simp add: add_novel addQueue_add)

theorem add_keeps_crawlSet_witness:
  "crawlSet (fst (add \<lparr>queue = [], crawlSet = {key_b}\<rparr> [key_a])) = {key_b}"
  using add_keeps_crawlSet [of "\<lparr>queue = [], crawlSet = {key_b}\<rparr>" "[key_a]"] by simp


section \<open>Scraping addresses\<close>

lemma HYPER_URI_SCRAPER_iff: "HYPER_URI_SCRAPER t \<longleftrightarrow> address (take 72 t)"
proof -
  have "drop 8 (take 72 t) = take 64 (drop 8 t)"
    by (simp add: drop_take)
  moreover have "length (take 64 (drop 8 t)) = 64 \<longleftrightarrow> length (take 72 t) = 72"
    by (auto simp: min_def)
  moreover have "take 8 (take 72 t) = take 8 t"
    by simp
  ultimately show ?thesis
    by (auto simp: HYPER_URI_SCRAPER_def address_def list_all_iff hexdigit_iff)
qed

lemma HYPER_URI_SCRAPER_occurs: "HYPER_URI_SCRAPER t \<longleftrightarrow> occurs_at t 0"
  by (simp add: HYPER_URI_SCRAPER_iff occurs_at_def)

lemma occurs_at_Suc: "occurs_at (c # cs) (Suc i) = occurs_at cs i"
  by (simp add: occurs_at_def)

lemma occurs_at_Nil: "\<not> occurs_at [] i"
  by (simp add: occurs_at_def address_def)

lemma scrapeURIs_address: "m \<in> set (scrapeURIs t) \<Longrightarrow> address m"
  by (induction t rule: scrapeURIs.induct) (auto simp: HYPER_URI_SCRAPER_iff split: if_splits)

lemma scrapeURIs_Nil_iff: "scrapeURIs t = [] \<longleftrightarrow> (\<forall>i. \<not> occurs_at t i)"
proof (induction t)
  case Nil
  show ?case by (simp add: occurs_at_Nil)
next
  case (Cons c cs)
  have "(\<forall>i. \<not> occurs_at (c # cs) i) \<longleftrightarrow> \<not> occurs_at (c # cs) 0 \<and> (\<forall>i. \<not> occurs_at cs i)"
    by (metis occurs_at_Suc not0_implies_Suc)
  with Cons show ?case
    by (simp add: HYPER_URI_SCRAPER_occurs)
qed

lemma scrapeURIs_at_match:
  assumes "address m"
  shows "scrapeURIs (m @ rest) = m # scrapeURIs rest"
proof -
  from assms have len: "length m = 72" by (simp add: address_def)
  then obtain c cs where m: "m = c # cs" by (cases m) auto
  with len have lcs: "length cs = 71" by simp
  have "HYPER_URI_SCRAPER (m @ rest)"
    using assms len by (simp add: HYPER_URI_SCRAPER_iff)
  moreover have "take 72 (m @ rest) = m" using len by simp
  moreover have "drop 71 (cs @ rest) = rest" using lcs by simp
  ultimately show ?thesis unfolding m by simp
qed

lemma scrapeURIs_leftmost:
  assumes "address m" and "\<forall>i < length pre. \<not> occurs_at (pre @ m @ rest) i"
  shows "scrapeURIs (pre @ m @ rest) = m # scrapeURIs rest"
  using assms(2)
proof (induction pre)
  case Nil
  show ?case using scrapeURIs_at_match [OF assms(1)] by simp
next
  case (Cons p pre)
  from Cons.prems have "\<not> occurs_at ((p # pre) @ m @ rest) 0" by simp
  then have no: "\<not> HYPER_URI_SCRAPER (p # pre @ m @ rest)"
    by (simp add: HYPER_URI_SCRAPER_occurs)
  have "\<forall>i < length pre. \<not> occurs_at (pre @ m @ rest) i"
  proof (intro allI impI)
    fix i assume "i < length pre"
    then have "Suc i < length (p # pre)" by simp
    with Cons.prems have "\<not> occurs_at ((p # pre) @ m @ rest) (Suc i)" by blast
    then show "\<not> occurs_at (pre @ m @ rest) i" by (simp add: occurs_at_Suc)
  qed
  then have "scrapeURIs (pre @ m @ rest) = m # scrapeURIs rest" by (rule Cons.IH)
  with no show ?case by simp
qed

lemma index_below_8:
  assumes "0 < (n::nat)" and "n < 8"
  shows "n = 1 \<or> n = 2 \<or> n = 3 \<or> n = 4 \<or> n = 5 \<or> n = 6 \<or> n = 7"
  using assms by arith

lemma no_overlap:
  assumes m: "address m" and h: "HYPER_URI_SCRAPER (pre @ m @ rest)" and ne: "pre \<noteq> []"
  shows "72 \<le> length pre"
proof (rule ccontr)
  assume "\<not> 72 \<le> length pre"
  then have lt: "length pre < 72" by simp
  let ?t = "pre @ m @ rest"
  let ?n = "length pre"
  from m have "m \<noteq> []" by (auto simp: address_def)
  from m have "take 8 m = ''hyper://''" by (simp add: address_def)
  then have "hd m = CHR ''h''" using \<open>m \<noteq> []\<close> by (cases m) auto
  then have tn: "?t ! ?n = CHR ''h''"
    using \<open>m \<noteq> []\<close> by (simp add: nth_append hd_conv_nth)
  from m have lm: "length m = 72" by (simp add: address_def)
  have pos: "0 < ?n" using ne by simp
  show False
  proof (cases "?n < 8")
    case True
    from h have t8: "take 8 ?t = ''hyper://''" by (simp add: HYPER_URI_SCRAPER_def)
    have "take 8 ?t ! ?n = ?t ! ?n" using True by (rule nth_take)
    with t8 tn have "''hyper://'' ! ?n = CHR ''h''" by simp
    with index_below_8 [OF pos True] show False by auto
  next
    case False
    from h have hx: "list_all hexdigit (take 64 (drop 8 ?t))" by (simp add: HYPER_URI_SCRAPER_def)
    have len: "?n - 8 < length (take 64 (drop 8 ?t))"
      using False lt lm by simp
    have "take 64 (drop 8 ?t) ! (?n - 8) = drop 8 ?t ! (?n - 8)"
      using lt by (intro nth_take) simp
    also have "\<dots> = ?t ! (8 + (?n - 8))"
      using False by (intro nth_drop) simp
    also have "8 + (?n - 8) = ?n"
      using False by simp
    finally have "take 64 (drop 8 ?t) ! (?n - 8) = ?t ! ?n" .
    with tn have "CHR ''h'' \<in> set (take 64 (drop 8 ?t))"
      using len by (metis nth_mem)
    with hx have "hexdigit CHR ''h''" by (simp add: list_all_iff)
    then show False by (simp add: hexdigit_def)
  qed
qed

lemma scrapeURIs_finds:
  assumes "address m"
  shows "m \<in> set (scrapeURIs (pre @ m @ rest))"
proof (induction "length pre" arbitrary: pre rule: less_induct)
  case less
  show ?case
  proof (cases pre)
    case Nil
    then show ?thesis using scrapeURIs_at_match [OF assms] by simp
  next
    case (Cons p ps)
    show ?thesis
    proof (cases "HYPER_URI_SCRAPER (pre @ m @ rest)")
      case True
      with assms Cons have "72 \<le> length pre" using no_overlap by blast
      with Cons have lps: "71 \<le> length ps" by simp
      then have d: "drop 71 (ps @ m @ rest) = drop 71 ps @ m @ rest" by simp
      have "length (drop 71 ps) < length pre" using Cons by simp
      then have "m \<in> set (scrapeURIs (drop 71 ps @ m @ rest))" by (rule less)
      with True Cons d show ?thesis by simp
    next
      case False
      have "length ps < length pre" using Cons by simp
      then have "m \<in> set (scrapeURIs (ps @ m @ rest))" by (rule less)
      with False Cons show ?thesis by simp
    qed
  qed
qed

lemma scrapeURIs_long_run:
  assumes "64 < length h" and "set h \<subseteq> hex_chars"
  shows "''hyper://'' @ take 64 h \<in> set (scrapeURIs (pre @ ''hyper://'' @ h @ rest))"
proof -
  let ?m = "''hyper://'' @ take 64 h"
  have "set (take 64 h) \<subseteq> hex_chars" using assms(2) by (meson set_take_subset subset_trans)
  then have a: "address ?m" using assms(1) by (simp add: address_def)
  have eq: "pre @ ''hyper://'' @ h @ rest = pre @ ?m @ (drop 64 h @ rest)"
    by simp
  show ?thesis unfolding eq by (rule scrapeURIs_finds [OF a])
qed

text \<open>
  C5. Every string that \<^verbatim>\<open>scrapeURIs\<close> returns is an address. The result is empty exactly when
  no address occurs in the text. When an address \<open>m\<close> stands behind a prefix in which no
  address begins, the result is \<open>m\<close> followed by the result for the text behind \<open>m\<close>: the
  matches come from left to right, do not overlap, and a repeated address is returned each
  time. \<^verbatim>\<open>scrapeHyperAddresses\<close> of \<^verbatim>\<open>index.js\<close> is the same function.
\<close>

theorem scrapeURIs_specification:
  "(\<forall>a \<in> set (scrapeURIs t). address a)
   \<and> (scrapeURIs t = [] \<longleftrightarrow> (\<forall>i. \<not> occurs_at t i))
   \<and> (address m \<and> (\<forall>i < length pre. \<not> occurs_at (pre @ m @ rest) i)
        \<longrightarrow> scrapeURIs (pre @ m @ rest) = m # scrapeURIs rest)
   \<and> scrapeHyperAddresses t = scrapeURIs t"
  using scrapeURIs_address [of _ t] scrapeURIs_Nil_iff [of t] scrapeURIs_leftmost [of m pre rest]
  by (auto simp: scrapeHyperAddresses_def)

theorem scrapeURIs_specification_witness:
  "address (''hyper://'' @ replicate 64 CHR ''f'')
   \<and> scrapeURIs (''see '' @ (''hyper://'' @ replicate 64 CHR ''f'') @ '' and junk hyper://short'')
       = [''hyper://'' @ replicate 64 CHR ''f'']
   \<and> scrapeURIs ((''hyper://'' @ replicate 64 CHR ''f'') @ (''hyper://'' @ replicate 64 CHR ''f''))
       = [''hyper://'' @ replicate 64 CHR ''f'', ''hyper://'' @ replicate 64 CHR ''f'']"
proof -
  let ?m = "''hyper://'' @ replicate 64 CHR ''f''"
  let ?t = "''see '' @ ?m @ '' and junk hyper://short''"
  have a: "address ?m" by code_simp
  have b: "\<forall>i \<in> {0..<4}. \<not> occurs_at ?t i" by code_simp
  have n: "\<forall>i < length ''see ''. \<not> occurs_at ?t i"
  proof (intro allI impI)
    fix i :: nat
    assume "i < length ''see ''"
    then have "i \<in> {0..<4}" by simp
    with b show "\<not> occurs_at ?t i" by blast
  qed
  have r: "scrapeURIs '' and junk hyper://short'' = []" by code_simp
  from a n scrapeURIs_specification [of "[]" ?m "''see ''" "'' and junk hyper://short''"]
  have "scrapeURIs ?t = ?m # scrapeURIs '' and junk hyper://short''" by blast
  then have one: "scrapeURIs ?t = [?m]" unfolding r .
  have two: "scrapeURIs (?m @ ?m) = [?m, ?m]" by code_simp
  from a one two show ?thesis by blast
qed

text \<open>
  C9. When \<^verbatim>\<open>hyper://\<close> is followed by more than 64 lowercase hexadecimal characters,
  \<^verbatim>\<open>scrapeURIs\<close> returns \<^verbatim>\<open>hyper://\<close> with the first 64 of them, wherever in a text this
  stands, and \<^verbatim>\<open>extractKey\<close> turns that match into these 64 characters, a Key.
\<close>

theorem scrapeURIs_truncates_long_run:
  "64 < length h \<and> set h \<subseteq> hex_chars \<longrightarrow>
     ''hyper://'' @ take 64 h \<in> set (scrapeURIs (pre @ ''hyper://'' @ h @ rest))
     \<and> ''hyper://'' @ take 64 h \<in> set (scrapeHyperAddresses (pre @ ''hyper://'' @ h @ rest))
     \<and> extractKey (''hyper://'' @ take 64 h) = Some (take 64 h)"
proof (intro impI, elim conjE)
  assume len: "64 < length h" and hex: "set h \<subseteq> hex_chars"
  have "set (take 64 h) \<subseteq> hex_chars"
    using hex by (meson set_take_subset subset_trans)
  with len have "Key (take 64 h)" by (simp add: Key_def)
  then have "extractKey (''hyper://'' @ take 64 h) = Some (take 64 h)"
    by (simp add: extractKey_eq)
  with scrapeURIs_long_run [OF len hex, of pre rest]
  show "''hyper://'' @ take 64 h \<in> set (scrapeURIs (pre @ ''hyper://'' @ h @ rest))
     \<and> ''hyper://'' @ take 64 h \<in> set (scrapeHyperAddresses (pre @ ''hyper://'' @ h @ rest))
     \<and> extractKey (''hyper://'' @ take 64 h) = Some (take 64 h)"
    unfolding scrapeHyperAddresses_def by blast
qed

theorem scrapeURIs_truncates_long_run_witness:
  "64 < length (replicate 65 CHR ''f'')
   \<and> ''hyper://'' @ take 64 (replicate 65 CHR ''f'')
       \<in> set (scrapeURIs (''key: '' @ ''hyper://'' @ replicate 65 CHR ''f'' @ ''.''))
   \<and> scrapeURIs (''key: '' @ ''hyper://'' @ replicate 65 CHR ''f'' @ ''.'')
       = [''hyper://'' @ replicate 64 CHR ''f'']"
proof -
  have len: "64 < length (replicate 65 CHR ''f'')" by simp
  have hex: "set (replicate 65 CHR ''f'') \<subseteq> hex_chars" by (simp add: hex_chars_def)
  have ev: "scrapeURIs (''key: '' @ ''hyper://'' @ replicate 65 CHR ''f'' @ ''.'')
       = [''hyper://'' @ replicate 64 CHR ''f'']" by code_simp
  from len hex scrapeURIs_truncates_long_run [of "replicate 65 CHR ''f''" "''key: ''" "''.''"]
  have "''hyper://'' @ take 64 (replicate 65 CHR ''f'')
       \<in> set (scrapeURIs (''key: '' @ ''hyper://'' @ replicate 65 CHR ''f'' @ ''.''))" by blast
  with len ev show ?thesis by blast
qed

section \<open>The scrape policy\<close>

lemma segments_hd: "segments p = takeWhile (\<lambda>c. c \<noteq> CHR ''/'') p # tl (segments p)"
  by (induction p) (auto split: list.splits)

lemma takeWhile_prefix_take:
  assumes "takeWhile P xs = ys"
  shows "take (length ys) xs = ys"
proof -
  have "xs = ys @ dropWhile P xs" using assms by (metis takeWhile_dropWhile_id)
  then have "take (length ys) xs = take (length ys) (ys @ dropWhile P xs)" by simp
  then show ?thesis by simp
qed

lemma first_segment_ignored:
  assumes "takeWhile (\<lambda>c. c \<noteq> CHR ''/'') p = seg" and "seg = ''node_modules'' \<or> seg = ''.git''"
  shows "ignored_name p"
proof -
  from assms(2) show ?thesis
  proof
    assume "seg = ''node_modules''"
    with takeWhile_prefix_take [OF assms(1)]
    have "take (length ''node_modules'') p = ''node_modules''" by (simp only:)
    moreover have "length ''node_modules'' = 12" by simp
    ultimately have "take 12 p = ''node_modules''" by (simp only:)
    then show ?thesis by (simp add: ignored_name_def)
  next
    assume "seg = ''.git''"
    with takeWhile_prefix_take [OF assms(1)]
    have "take (length ''.git'') p = ''.git''" by (simp only:)
    moreover have "length ''.git'' = 4" by simp
    ultimately have t: "take 4 p = ''.git''" by (simp only:)
    then obtain c cs where p: "p = c # cs" by (cases p) auto
    with t have "c = CHR ''.''" and "take 3 cs = ''git''" by simp_all
    with p show ?thesis by (simp add: ignored_name_def line_terminator_def)
  qed
qed

lemma later_segment_ignored:
  assumes "seg = ''node_modules'' \<or> seg = ''.git''"
  shows "seg \<in> set (tl (segments p)) \<Longrightarrow> ignored_after_slash p"
proof (induction p)
  case Nil
  then show ?case by simp
next
  case (Cons c cs)
  show ?case
  proof (cases "c = CHR ''/''")
    case True
    with Cons.prems have "seg \<in> set (segments cs)" by simp
    then have "seg = takeWhile (\<lambda>c. c \<noteq> CHR ''/'') cs \<or> seg \<in> set (tl (segments cs))"
      by (subst (asm) segments_hd) auto
    then show ?thesis
    proof
      assume "seg = takeWhile (\<lambda>c. c \<noteq> CHR ''/'') cs"
      then have "ignored_name cs" using first_segment_ignored assms by blast
      with True show ?thesis by simp
    next
      assume "seg \<in> set (tl (segments cs))"
      then show ?thesis using Cons.IH by simp
    qed
  next
    case False
    with Cons.prems have "seg \<in> set (tl (segments cs))"
      by (auto split: list.splits)
    then show ?thesis using Cons.IH by simp
  qed
qed

lemma isExcludedPath_ignored:
  assumes "isExcludedPath p"
  shows "ignored p"
proof -
  from assms obtain seg where s: "seg \<in> set (segments p)" and n: "seg = ''node_modules'' \<or> seg = ''.git''"
    by (auto simp: isExcludedPath_def list_ex_iff)
  from s have "seg = takeWhile (\<lambda>c. c \<noteq> CHR ''/'') p \<or> seg \<in> set (tl (segments p))"
    by (subst (asm) segments_hd) auto
  then show ?thesis
    using first_segment_ignored [of p seg] later_segment_ignored [OF n, of p] n
    by (auto simp: ignored_def)
qed

lemma select_extensions_iff:
  "select_extensions p \<longleftrightarrow> list_ex (ends_with p) [''.htm'', ''.html'', ''.md'', ''.xml'', ''.json'', ''.js'', ''.css'']"
  by (auto simp: select_extensions_def)

lemma filterScrapable_within_policy:
  "filterScrapable entries = filter (\<lambda>entry. \<not> ignored entry) (filter isScrapable entries)"
proof -
  have "select_extensions e \<and> \<not> ignored e \<longleftrightarrow> \<not> ignored e \<and> isScrapable e" for e
    using isExcludedPath_ignored [of e] by (auto simp: isScrapable_def select_extensions_iff)
  then have "filter (\<lambda>e. select_extensions e \<and> \<not> ignored e) entries
      = filter (\<lambda>e. \<not> ignored e \<and> isScrapable e) entries"
    by (intro filter_cong refl)
  then show ?thesis
    by (simp add: filterScrapable_def conj_commute)
qed

lemma filterScrapable_examples:
  "filterScrapable [''a/node_modules/b.js'', ''node_modules/b.js'', ''b.js''] = [''b.js'']"
  by code_simp

text \<open>
  C6 at four entries with an extension of the list and no segment equal to \<^verbatim>\<open>node_modules\<close>
  or \<^verbatim>\<open>.git\<close>. The policy of the specification keeps all four; \<^verbatim>\<open>filterScrapable\<close> drops
  three of them, since its pattern \<^verbatim>\<open>/(^|\/)(node_modules|.git)/\<close> has an unescaped dot and no
  end of segment behind the name. The Node script filters by extension only, and keeps
  an entry below \<^verbatim>\<open>node_modules\<close>.
\<close>

theorem filterScrapable_over_excludes:
  "filterScrapable [''.github/ci.json'', ''agit.js'', ''node_modules2/b.js'', ''b.js''] = [''b.js'']
   \<and> filter isScrapable [''.github/ci.json'', ''agit.js'', ''node_modules2/b.js'', ''b.js'']
       = [''.github/ci.json'', ''agit.js'', ''node_modules2/b.js'', ''b.js'']
   \<and> filter SCRAPABLE_EXTS [''node_modules/b.js''] = [''node_modules/b.js'']
   \<and> filter isScrapable [''node_modules/b.js''] = []"
  by code_simp

section \<open>The crawl of one drive\<close>

lemma keys_of_iff: "k \<in> keys_of uris \<longleftrightarrow> (\<exists>u \<in> set uris. extractKey u = Some k)"
  by (auto simp: keys_of_def List.map_filter_def intro: rev_image_eqI)

lemma keys_of_Nil: "keys_of [] = {}"
  by (simp add: keys_of_def List.map_filter_def)

lemma finite_keys_of: "finite (keys_of uris)"
  by (simp add: keys_of_def)

lemma novel_keys_of: "set (novel seen uris) \<subseteq> keys_of uris"
  using novel_subset [of seen uris] by (auto simp: keys_of_iff)

lemma novel_covers: "keys_of uris \<subseteq> seen \<union> set (novel seen uris)"
proof (induction uris arbitrary: seen)
  case Nil
  show ?case by (simp add: keys_of_Nil)
next
  case (Cons u uris)
  show ?case
  proof
    fix k assume "k \<in> keys_of (u # uris)"
    then consider "extractKey u = Some k" | "k \<in> keys_of uris"
      by (auto simp: keys_of_iff)
    then show "k \<in> seen \<union> set (novel seen (u # uris))"
    proof cases
      case 1
      then show ?thesis by simp
    next
      case 2
      show ?thesis
      proof (cases "extractKey u")
        case None
        with 2 Cons.IH [of seen] show ?thesis by auto
      next
        case (Some key)
        with 2 Cons.IH [of seen] Cons.IH [of "insert key seen"] show ?thesis by auto
      qed
    qed
  qed
qed

lemma add_queue: "queue (fst (add q uris)) = queue q @ novel (set (queue q) \<union> crawlSet q) uris"
  by (simp add: add_novel)

lemma add_crawlSet: "crawlSet (fst (add q uris)) = crawlSet q"
  by (simp add: add_novel)

lemma add_Nil: "fst (add q []) = q"
  by (simp add: add_novel)

lemma add_append: "fst (add q (xs @ ys)) = fst (add (fst (add q xs)) ys)"
  by (simp add: add_novel novel_append Un_ac)

lemma add_frontier_inv:
  assumes "frontier_inv q"
  shows "frontier_inv (fst (add q uris))"
  using assms novel_disjoint [of "set (queue q) \<union> crawlSet q" uris]
    novel_distinct [of "set (queue q) \<union> crawlSet q" uris]
  by (auto simp: frontier_inv_def add_queue add_crawlSet)

lemma scrape_targets_scraped: "scrape_targets d targets q = fst (add q (scraped d targets))"
proof (induction targets arbitrary: q)
  case Nil
  show ?case by (simp add: scraped_def add_Nil)
next
  case (Cons target targets)
  show ?case
  proof (cases "readFile d target")
    case None
    then show ?thesis using Cons.IH [of q] by (simp add: scraped_def)
  next
    case (Some content)
    have "scraped d (target # targets) = scrapeURIs content @ scraped d targets"
      using Some by (simp add: scraped_def)
    then show ?thesis
      using Some Cons.IH by (simp add: add_append scrapeHyperAddresses_def)
  qed
qed

lemma crawl_discovered: "crawl w key q = fst (add q (discovered w key))"
  by (simp add: crawl_def discovered_def add_Nil add_append scrape_targets_scraped
      split: option.splits)

lemma scrape_entries_scraped: "scrape_entries d entries m = fst (add m (scraped d entries))"
proof (induction entries arbitrary: m)
  case Nil
  show ?case by (simp add: scraped_def add_Nil)
next
  case (Cons entry entries)
  show ?case
  proof (cases "readFile d entry")
    case None
    then show ?thesis using Cons.IH [of m] by (simp add: scraped_def)
  next
    case (Some content)
    have "scraped d (entry # entries) = scrapeURIs content @ scraped d entries"
      using Some by (simp add: scraped_def)
    then show ?thesis
      using Some Cons.IH by (simp add: add_append addQueue_add)
  qed
qed

lemma crawlHyper_discovered:
  "crawlHyper w key p =
     \<lparr>memory = \<lparr>queue = queue (memory p) @ novel (set (queue (memory p)) \<union> crawlSet (memory p)) (discovered_node w key),
                crawlSet = insert key (crawlSet (memory p))\<rparr>,
      console = console p @ [key]\<rparr>"
  by (simp add: crawlHyper_def discovered_node_def scrape_entries_scraped add_novel Let_def
      split: option.splits)

lemma loop_body_fields:
  "crawl_queue (loop_body e key s) = crawl (hyperdrive e) key (crawl_queue s)"
  "printed (loop_body e key s) = printed s @ [key]"
  by (simp_all add: loop_body_def Let_def)

lemma iterator_next_Some:
  assumes "queue q \<noteq> []"
  shows "iterator_next q = Some (last (queue q), \<lparr>queue = butlast (queue q), crawlSet = insert (last (queue q)) (crawlSet q)\<rparr>)"
  using assms by (simp add: iterator_next_def Let_def)

lemma iterator_next_None: "iterator_next q = None \<longleftrightarrow> queue q = []"
  by (simp add: iterator_next_def Let_def)

section \<open>The crawl loops\<close>

subsection \<open>The loop of \<^verbatim>\<open>pleco\<close> runs the queue empty\<close>

lemma pleco_loop_empty:
  assumes "queue (crawl_queue s) = []"
  shows "pleco_loop e s = Some s"
  using assms by (subst pleco_loop.simps) (simp add: iterator_next_def)

lemma pleco_loop_step:
  assumes "queue (crawl_queue s) \<noteq> []"
  shows "pleco_loop e s =
     pleco_loop e (loop_body e (last (queue (crawl_queue s)))
       (s\<lparr>crawl_queue := \<lparr>queue = butlast (queue (crawl_queue s)),
                           crawlSet = insert (last (queue (crawl_queue s))) (crawlSet (crawl_queue s))\<rparr>\<rparr>))"
  by (subst pleco_loop.simps) (simp add: iterator_next_Some [OF assms])

lemma round_queue:
  "queue (crawl_queue (loop_body e k (s\<lparr>crawl_queue := \<lparr>queue = b, crawlSet = insert k C\<rparr>\<rparr>)))
     = b @ novel (set b \<union> insert k C) (discovered (hyperdrive e) k)"
  by (simp add: loop_body_fields crawl_discovered add_queue)

lemma round_crawlSet:
  "crawlSet (crawl_queue (loop_body e k (s\<lparr>crawl_queue := \<lparr>queue = b, crawlSet = insert k C\<rparr>\<rparr>)))
     = insert k C"
  by (simp add: loop_body_fields crawl_discovered add_crawlSet)

lemma round_printed:
  "printed (loop_body e k (s\<lparr>crawl_queue := q\<rparr>)) = printed s @ [k]"
  by (simp add: loop_body_fields)

lemma pleco_loop_total:
  assumes fin: "finite K" and closed: "\<And>k. keys_of (discovered (hyperdrive e) k) \<subseteq> K"
  shows "frontier_inv (crawl_queue s) \<Longrightarrow> set (queue (crawl_queue s)) \<subseteq> K \<Longrightarrow>
         distinct (printed s) \<Longrightarrow> set (printed s) = crawlSet (crawl_queue s) \<Longrightarrow>
         \<exists>s'. pleco_loop e s = Some s' \<and> queue (crawl_queue s') = []
            \<and> frontier_inv (crawl_queue s')
            \<and> distinct (printed s') \<and> set (printed s') = crawlSet (crawl_queue s')
            \<and> set (queue (crawl_queue s)) \<union> crawlSet (crawl_queue s) \<subseteq> crawlSet (crawl_queue s')"
proof (induction "card (K - crawlSet (crawl_queue s))" arbitrary: s rule: less_induct)
  case less
  let ?q = "queue (crawl_queue s)"
  let ?C = "crawlSet (crawl_queue s)"
  show ?case
  proof (cases "?q = []")
    case True
    with less.prems pleco_loop_empty [OF True, of e] show ?thesis by auto
  next
    case False
    let ?k = "last ?q"
    let ?b = "butlast ?q"
    let ?s1 = "loop_body e ?k (s\<lparr>crawl_queue := \<lparr>queue = ?b, crawlSet = insert ?k ?C\<rparr>\<rparr>)"
    let ?N = "novel (set ?b \<union> insert ?k ?C) (discovered (hyperdrive e) ?k)"
    have q: "?q = ?b @ [?k]" using False by simp
    have dq: "distinct ?q" and disj: "set ?q \<inter> ?C = {}"
      using less.prems(1) by (simp_all add: frontier_inv_def)
    have kq: "?k \<in> set ?q" using False by simp
    have db: "distinct ?b" using dq by (rule distinct_butlast)
    have "distinct (?b @ [?k])" using dq q by simp
    then have knb: "?k \<notin> set ?b" by simp
    have "set ?q = set (?b @ [?k])" using q by (rule arg_cong)
    then have sq: "set ?q = insert ?k (set ?b)" by simp
    have knC: "?k \<notin> ?C" using kq disj by auto
    have kK: "?k \<in> K" using kq less.prems(2) by auto
    have bq: "set ?b \<subseteq> set ?q" unfolding sq by auto
    have q1: "queue (crawl_queue ?s1) = ?b @ ?N" by (rule round_queue)
    have c1: "crawlSet (crawl_queue ?s1) = insert ?k ?C" by (rule round_crawlSet)
    have p1: "printed ?s1 = printed s @ [?k]" by (rule round_printed)
    have Nd: "distinct ?N" by (rule novel_distinct)
    have Ndisj: "set ?N \<inter> (set ?b \<union> insert ?k ?C) = {}" by (rule novel_disjoint)
    have NK: "set ?N \<subseteq> K" using novel_keys_of closed by blast
    have inv1: "frontier_inv (crawl_queue ?s1)"
      unfolding frontier_inv_def q1 c1
      using db Nd Ndisj knb disj bq by auto
    have sub1: "set (queue (crawl_queue ?s1)) \<subseteq> K"
      unfolding q1 using NK bq less.prems(2) by auto
    have dp1: "distinct (printed ?s1)"
      unfolding p1 using less.prems(3,4) knC by simp
    have sp1: "set (printed ?s1) = crawlSet (crawl_queue ?s1)"
      unfolding p1 c1 using less.prems(4) by simp
    have "K - insert ?k ?C = (K - ?C) - {?k}" by auto
    moreover have "?k \<in> K - ?C" using kK knC by simp
    moreover have "finite (K - ?C)" using fin by simp
    ultimately have "card (K - insert ?k ?C) < card (K - ?C)"
      by (metis card_Diff1_less)
    then have "card (K - crawlSet (crawl_queue ?s1)) < card (K - ?C)"
      unfolding c1 .
    from less.hyps [OF this inv1 sub1 dp1 sp1]
    obtain s' where r: "pleco_loop e ?s1 = Some s'" "queue (crawl_queue s') = []"
        "frontier_inv (crawl_queue s')"
        "distinct (printed s')" "set (printed s') = crawlSet (crawl_queue s')"
        "set (queue (crawl_queue ?s1)) \<union> crawlSet (crawl_queue ?s1) \<subseteq> crawlSet (crawl_queue s')"
      by blast
    have "pleco_loop e s = Some s'"
      using pleco_loop_step [OF False, of e] r(1) by simp
    moreover have "set ?q \<union> ?C \<subseteq> crawlSet (crawl_queue s')"
      using r(6) unfolding q1 c1 sq by auto
    ultimately show ?thesis using r by blast
  qed
qed

lemma discovered_outside: "w k = None \<Longrightarrow> discovered w k = []"
  by (simp add: discovered_def)

lemma discovered_node_outside: "w k = None \<Longrightarrow> discovered_node w k = []"
  by (simp add: discovered_node_def)

lemma finite_discovered_keys:
  assumes "finite (dom w)"
  shows "finite (\<Union>k. keys_of (discovered w k))"
proof -
  have "keys_of (discovered w k) = {}" if "k \<notin> dom w" for k
    using that by (simp add: discovered_outside keys_of_Nil domIff)
  then have "(\<Union>k. keys_of (discovered w k)) = (\<Union>k \<in> dom w. keys_of (discovered w k))"
    by blast
  with assms show ?thesis by (simp add: finite_keys_of)
qed

lemma finite_discovered_node_keys:
  assumes "finite (dom w)"
  shows "finite (\<Union>k. keys_of (discovered_node w k))"
proof -
  have "keys_of (discovered_node w k) = {}" if "k \<notin> dom w" for k
    using that by (simp add: discovered_node_outside keys_of_Nil domIff)
  then have "(\<Union>k. keys_of (discovered_node w k)) = (\<Union>k \<in> dom w. keys_of (discovered_node w k))"
    by blast
  with assms show ?thesis by (simp add: finite_keys_of)
qed

lemma frontier_inv_new: "frontier_inv new_CrawlQueue"
  by (simp add: frontier_inv_def new_CrawlQueue_def)

lemma pleco_total:
  assumes "finite (dom (hyperdrive e))"
  shows "\<exists>s'. pleco e cwd = Some s' \<and> queue (crawl_queue s') = []
            \<and> frontier_inv (crawl_queue s')
            \<and> distinct (printed s') \<and> set (printed s') = crawlSet (crawl_queue s')
            \<and> keys_of [cwd] \<subseteq> crawlSet (crawl_queue s')"
proof -
  let ?K = "keys_of [cwd] \<union> (\<Union>k. keys_of (discovered (hyperdrive e) k))"
  let ?q0 = "fst (add new_CrawlQueue [cwd])"
  let ?s0 = "\<lparr>crawl_queue = ?q0, mounted = 0, printed = []\<rparr>"
  have fin: "finite ?K"
    using finite_discovered_keys [OF assms] by (simp add: finite_keys_of)
  have closed: "\<And>k. keys_of (discovered (hyperdrive e) k) \<subseteq> ?K" by auto
  have q0: "queue ?q0 = novel {} [cwd]" and c0: "crawlSet ?q0 = {}"
    by (simp_all add: add_queue add_crawlSet new_CrawlQueue_def)
  have all: "keys_of [cwd] = set (queue ?q0)"
    using novel_covers [of "[cwd]" "{}"] novel_keys_of [of "{}" "[cwd]"] unfolding q0 by auto
  have "frontier_inv (crawl_queue ?s0)"
    using add_frontier_inv [OF frontier_inv_new] by simp
  moreover have "set (queue (crawl_queue ?s0)) \<subseteq> ?K"
    using all by auto
  moreover have "distinct (printed ?s0)" by simp
  moreover have "set (printed ?s0) = crawlSet (crawl_queue ?s0)"
    using c0 by simp
  ultimately obtain s' where "pleco_loop e ?s0 = Some s'" "queue (crawl_queue s') = []"
      "frontier_inv (crawl_queue s')"
      "distinct (printed s')" "set (printed s') = crawlSet (crawl_queue s')"
      "set (queue (crawl_queue ?s0)) \<union> crawlSet (crawl_queue ?s0) \<subseteq> crawlSet (crawl_queue s')"
    using pleco_loop_total [OF fin closed, of ?s0] by blast
  then show ?thesis
    using all unfolding pleco_def by auto
qed

subsection \<open>The queue of the Node script runs empty\<close>

lemma exhaustQueue_empty:
  assumes "queue (memory p) = []"
  shows "exhaustQueue w p = Some p"
  using assms by (subst exhaustQueue.simps) simp

lemma exhaustQueue_step:
  assumes "queue (memory p) \<noteq> []"
  shows "exhaustQueue w p =
     exhaustQueue w (crawlHyper w (last (queue (memory p)))
       (p\<lparr>memory := (memory p)\<lparr>queue := butlast (queue (memory p))\<rparr>\<rparr>))"
  using assms by (subst exhaustQueue.simps) (simp add: Let_def)

lemma turn_fields:
  "queue (memory (crawlHyper w k (p\<lparr>memory := (memory p)\<lparr>queue := b\<rparr>\<rparr>)))
     = b @ novel (set b \<union> crawlSet (memory p)) (discovered_node w k)"
  "crawlSet (memory (crawlHyper w k (p\<lparr>memory := (memory p)\<lparr>queue := b\<rparr>\<rparr>)))
     = insert k (crawlSet (memory p))"
  "console (crawlHyper w k (p\<lparr>memory := (memory p)\<lparr>queue := b\<rparr>\<rparr>)) = console p @ [k]"
  by (simp_all add: crawlHyper_discovered)

lemma filter_insert_distinct:
  assumes "distinct xs"
  shows "length (filter (\<lambda>x. x \<in> insert k C) xs) \<le> Suc (length (filter (\<lambda>x. x \<in> C) xs))"
  using assms
proof (induction xs)
  case Nil
  show ?case by simp
next
  case (Cons x xs)
  show ?case
  proof (cases "x = k")
    case True
    with Cons.prems have "k \<notin> set xs" by simp
    then have "filter (\<lambda>x. x \<in> insert k C) xs = filter (\<lambda>x. x \<in> C) xs"
      by (intro filter_cong) auto
    with True show ?thesis by simp
  next
    case False
    with Cons show ?thesis by simp
  qed
qed

lemma exhaustQueue_total:
  assumes fin: "finite K" and closed: "\<And>k. keys_of (discovered_node w k) \<subseteq> K"
  shows "distinct (queue (memory p)) \<Longrightarrow> set (queue (memory p)) \<subseteq> K \<Longrightarrow>
         set (console p) = crawlSet (memory p) \<Longrightarrow>
         \<exists>p'. exhaustQueue w p = Some p' \<and> queue (memory p') = []
            \<and> set (console p') = crawlSet (memory p')
            \<and> set (queue (memory p)) \<union> crawlSet (memory p) \<subseteq> crawlSet (memory p')"
proof (induction "2 * card (K - crawlSet (memory p))
    + length (filter (\<lambda>x. x \<in> crawlSet (memory p)) (queue (memory p)))" arbitrary: p rule: less_induct)
  case less
  let ?q = "queue (memory p)"
  let ?C = "crawlSet (memory p)"
  show ?case
  proof (cases "?q = []")
    case True
    with less.prems exhaustQueue_empty [OF True, of w] show ?thesis by auto
  next
    case False
    let ?k = "last ?q"
    let ?b = "butlast ?q"
    let ?p1 = "crawlHyper w ?k (p\<lparr>memory := (memory p)\<lparr>queue := ?b\<rparr>\<rparr>)"
    let ?N = "novel (set ?b \<union> ?C) (discovered_node w ?k)"
    have q: "?q = ?b @ [?k]" using False by simp
    have dq: "distinct ?q" by (rule less.prems(1))
    have db: "distinct ?b" using dq by (rule distinct_butlast)
    have "distinct (?b @ [?k])" using dq q by simp
    then have knb: "?k \<notin> set ?b" by simp
    have "set ?q = set (?b @ [?k])" using q by (rule arg_cong)
    then have sq: "set ?q = insert ?k (set ?b)" by simp
    have kK: "?k \<in> K" using sq less.prems(2) by auto
    have bK: "set ?b \<subseteq> K" using sq less.prems(2) by auto
    have q1: "queue (memory ?p1) = ?b @ ?N" by (rule turn_fields)
    have c1: "crawlSet (memory ?p1) = insert ?k ?C" by (rule turn_fields)
    have o1: "console ?p1 = console p @ [?k]" by (rule turn_fields)
    have Nd: "distinct ?N" by (rule novel_distinct)
    have Ndisj: "set ?N \<inter> (set ?b \<union> ?C) = {}" by (rule novel_disjoint)
    have NK: "set ?N \<subseteq> K" using novel_keys_of closed by blast
    have d1: "distinct (queue (memory ?p1))"
      unfolding q1 using db Nd Ndisj by auto
    have sub1: "set (queue (memory ?p1)) \<subseteq> K"
      unfolding q1 using NK bK by auto
    have sp1: "set (console ?p1) = crawlSet (memory ?p1)"
      unfolding o1 c1 using less.prems(3) by simp
    have fq: "filter (\<lambda>x. x \<in> ?C) ?q = filter (\<lambda>x. x \<in> ?C) (?b @ [?k])"
      using q by (rule arg_cong)
    have NC: "filter (\<lambda>x. x \<in> ?C) ?N = []"
      using Ndisj by (auto simp: filter_empty_conv)
    have decr: "2 * card (K - insert ?k ?C) + length (filter (\<lambda>x. x \<in> insert ?k ?C) (?b @ ?N))
        < 2 * card (K - ?C) + length (filter (\<lambda>x. x \<in> ?C) ?q)"
    proof (cases "?k \<in> ?C")
      case True
      then have "insert ?k ?C = ?C" by auto
      moreover have "length (filter (\<lambda>x. x \<in> ?C) ?q) = Suc (length (filter (\<lambda>x. x \<in> ?C) ?b))"
        unfolding fq using True by simp
      ultimately show ?thesis using NC by simp
    next
      case knC: False
      have "K - insert ?k ?C = (K - ?C) - {?k}" by auto
      moreover have "?k \<in> K - ?C" using kK knC by simp
      moreover have "finite (K - ?C)" using fin by simp
      ultimately have "card (K - insert ?k ?C) < card (K - ?C)"
        by (metis card_Diff1_less)
      moreover have "length (filter (\<lambda>x. x \<in> insert ?k ?C) (?b @ ?N))
          \<le> Suc (length (filter (\<lambda>x. x \<in> ?C) (?b @ ?N)))"
        using d1 unfolding q1 by (rule filter_insert_distinct)
      moreover have "length (filter (\<lambda>x. x \<in> ?C) (?b @ ?N)) = length (filter (\<lambda>x. x \<in> ?C) ?q)"
        unfolding fq using NC knC by simp
      ultimately show ?thesis by linarith
    qed
    then have "2 * card (K - crawlSet (memory ?p1))
        + length (filter (\<lambda>x. x \<in> crawlSet (memory ?p1)) (queue (memory ?p1)))
        < 2 * card (K - ?C) + length (filter (\<lambda>x. x \<in> ?C) ?q)"
      unfolding q1 c1 .
    from less.hyps [OF this d1 sub1 sp1]
    obtain p' where r: "exhaustQueue w ?p1 = Some p'" "queue (memory p') = []"
        "set (console p') = crawlSet (memory p')"
        "set (queue (memory ?p1)) \<union> crawlSet (memory ?p1) \<subseteq> crawlSet (memory p')"
      by blast
    have "exhaustQueue w p = Some p'"
      using exhaustQueue_step [OF False, of w] r(1) by simp
    moreover have "set ?q \<union> ?C \<subseteq> crawlSet (memory p')"
      using r(4) unfolding q1 c1 sq by auto
    ultimately show ?thesis using r by blast
  qed
qed

subsection \<open>Invariants of the two loops\<close>

lemma pleco_loop_invariant:
  assumes run: "pleco_loop e s = Some s'" and start: "I s"
    and step: "\<And>s. I s \<Longrightarrow> queue (crawl_queue s) \<noteq> [] \<Longrightarrow>
      I (loop_body e (last (queue (crawl_queue s)))
          (s\<lparr>crawl_queue := \<lparr>queue = butlast (queue (crawl_queue s)),
                crawlSet = insert (last (queue (crawl_queue s))) (crawlSet (crawl_queue s))\<rparr>\<rparr>))"
  shows "I s'"
proof -
  have "e = e \<longrightarrow> I s \<longrightarrow> I s'"
  proof (rule pleco_loop.raw_induct [where P = "\<lambda>a b c. a = e \<longrightarrow> I b \<longrightarrow> I c", OF _ run])
    fix f :: "pleco_env \<Rightarrow> pleco_state \<Rightarrow> pleco_state option" and a b c
    assume IH: "\<And>a b c. f a b = Some c \<Longrightarrow> a = e \<longrightarrow> I b \<longrightarrow> I c"
      and eq: "(case iterator_next (crawl_queue b) of None \<Rightarrow> Some b
                | Some (key, q) \<Rightarrow> f a (loop_body a key (b\<lparr>crawl_queue := q\<rparr>))) = Some c"
    show "a = e \<longrightarrow> I b \<longrightarrow> I c"
    proof (intro impI)
      assume a: "a = e" and b: "I b"
      show "I c"
      proof (cases "queue (crawl_queue b) = []")
        case True
        with eq b show ?thesis by (simp add: iterator_next_def)
      next
        case False
        with eq have "f a (loop_body a (last (queue (crawl_queue b)))
            (b\<lparr>crawl_queue := \<lparr>queue = butlast (queue (crawl_queue b)),
                  crawlSet = insert (last (queue (crawl_queue b))) (crawlSet (crawl_queue b))\<rparr>\<rparr>)) = Some c"
          by (simp add: iterator_next_Some)
        from IH [OF this] a step [OF b False] show ?thesis by simp
      qed
    qed
  qed
  with start show ?thesis by simp
qed

lemma exhaustQueue_invariant:
  assumes run: "exhaustQueue w p = Some p'" and start: "I p"
    and step: "\<And>p. I p \<Longrightarrow> queue (memory p) \<noteq> [] \<Longrightarrow>
      I (crawlHyper w (last (queue (memory p)))
          (p\<lparr>memory := (memory p)\<lparr>queue := butlast (queue (memory p))\<rparr>\<rparr>))"
  shows "I p'"
proof -
  have "w = w \<longrightarrow> I p \<longrightarrow> I p'"
  proof (rule exhaustQueue.raw_induct [where P = "\<lambda>a b c. a = w \<longrightarrow> I b \<longrightarrow> I c", OF _ run])
    fix f :: "(string \<Rightarrow> drive option) \<Rightarrow> process \<Rightarrow> process option" and a b c
    assume IH: "\<And>a b c. f a b = Some c \<Longrightarrow> a = w \<longrightarrow> I b \<longrightarrow> I c"
      and eq: "(if queue (memory b) = [] then Some b
                else let key = last (queue (memory b));
                         p1 = b\<lparr>memory := (memory b)\<lparr>queue := butlast (queue (memory b))\<rparr>\<rparr>
                     in f a (crawlHyper a key p1)) = Some c"
    show "a = w \<longrightarrow> I b \<longrightarrow> I c"
    proof (intro impI)
      assume a: "a = w" and b: "I b"
      show "I c"
      proof (cases "queue (memory b) = []")
        case True
        with eq b show ?thesis by simp
      next
        case False
        with eq have "f a (crawlHyper a (last (queue (memory b)))
            (b\<lparr>memory := (memory b)\<lparr>queue := butlast (queue (memory b))\<rparr>\<rparr>)) = Some c"
          by (simp add: Let_def)
        from IH [OF this] a step [OF b False] show ?thesis by simp
      qed
    qed
  qed
  with start show ?thesis by simp
qed

lemma set_butlast_last:
  assumes "xs \<noteq> []"
  shows "set xs = insert (last xs) (set (butlast xs))"
proof -
  have "xs = butlast xs @ [last xs]" using assms by simp
  then have "set xs = set (butlast xs @ [last xs])" by (rule arg_cong)
  then show ?thesis by simp
qed

lemma pleco_loop_explored:
  assumes "pleco_loop e s = Some s'" and "explored discovered (hyperdrive e) (crawl_queue s)"
  shows "explored discovered (hyperdrive e) (crawl_queue s')"
  using assms(1)
proof (rule pleco_loop_invariant [where I = "\<lambda>s. explored discovered (hyperdrive e) (crawl_queue s)"])
  show "explored discovered (hyperdrive e) (crawl_queue s)" by (rule assms(2))
next
  fix s :: pleco_state
  assume ex: "explored discovered (hyperdrive e) (crawl_queue s)" and ne: "queue (crawl_queue s) \<noteq> []"
  let ?q = "queue (crawl_queue s)"
  let ?C = "crawlSet (crawl_queue s)"
  let ?k = "last ?q"
  let ?b = "butlast ?q"
  let ?S = "set ?b \<union> insert ?k ?C"
  have cov: "keys_of (discovered (hyperdrive e) ?k) \<subseteq> ?S \<union> set (novel ?S (discovered (hyperdrive e) ?k))"
    by (rule novel_covers)
  have sq: "set ?q = insert ?k (set ?b)" using ne by (rule set_butlast_last)
  show "explored discovered (hyperdrive e) (crawl_queue (loop_body e ?k
          (s\<lparr>crawl_queue := \<lparr>queue = ?b, crawlSet = insert ?k ?C\<rparr>\<rparr>)))"
    unfolding explored_def round_queue round_crawlSet
  proof
    fix k assume "k \<in> insert ?k ?C"
    then show "keys_of (discovered (hyperdrive e) k)
        \<subseteq> set (?b @ novel ?S (discovered (hyperdrive e) ?k)) \<union> insert ?k ?C"
    proof
      assume "k = ?k"
      with cov show ?thesis by auto
    next
      assume "k \<in> ?C"
      with ex have "keys_of (discovered (hyperdrive e) k) \<subseteq> set ?q \<union> ?C"
        by (simp add: explored_def)
      then show ?thesis unfolding sq by auto
    qed
  qed
qed

lemma exhaustQueue_explored:
  assumes "exhaustQueue w p = Some p'" and "explored discovered_node w (memory p)"
  shows "explored discovered_node w (memory p')"
  using assms(1)
proof (rule exhaustQueue_invariant [where I = "\<lambda>p. explored discovered_node w (memory p)"])
  show "explored discovered_node w (memory p)" by (rule assms(2))
next
  fix p :: process
  assume ex: "explored discovered_node w (memory p)" and ne: "queue (memory p) \<noteq> []"
  let ?q = "queue (memory p)"
  let ?C = "crawlSet (memory p)"
  let ?k = "last ?q"
  let ?b = "butlast ?q"
  let ?S = "set ?b \<union> ?C"
  have cov: "keys_of (discovered_node w ?k) \<subseteq> ?S \<union> set (novel ?S (discovered_node w ?k))"
    by (rule novel_covers)
  have sq: "set ?q = insert ?k (set ?b)" using ne by (rule set_butlast_last)
  show "explored discovered_node w (memory (crawlHyper w ?k (p\<lparr>memory := (memory p)\<lparr>queue := ?b\<rparr>\<rparr>)))"
    unfolding explored_def turn_fields
  proof
    fix k assume "k \<in> insert ?k ?C"
    then show "keys_of (discovered_node w k)
        \<subseteq> set (?b @ novel ?S (discovered_node w ?k)) \<union> insert ?k ?C"
    proof
      assume "k = ?k"
      with cov show ?thesis by auto
    next
      assume "k \<in> ?C"
      with ex have "keys_of (discovered_node w k) \<subseteq> set ?q \<union> ?C"
        by (simp add: explored_def)
      then show ?thesis unfolding sq by auto
    qed
  qed
qed

lemma exhaustQueue_once:
  assumes "exhaustQueue w p = Some p'" and "once k p" and self: "k \<notin> keys_of (discovered_node w k)"
  shows "once k p'"
  using assms(1)
proof (rule exhaustQueue_invariant [where I = "once k"])
  show "once k p" by (rule assms(2))
next
  fix p :: process
  assume o: "once k p" and ne: "queue (memory p) \<noteq> []"
  let ?q = "queue (memory p)"
  let ?C = "crawlSet (memory p)"
  let ?k = "last ?q"
  let ?b = "butlast ?q"
  let ?N = "novel (set ?b \<union> ?C) (discovered_node w ?k)"
  have sq: "set ?q = insert ?k (set ?b)" using ne by (rule set_butlast_last)
  have dq: "distinct ?q" using o by (simp add: once_def)
  have db: "distinct ?b" using dq by (rule distinct_butlast)
  have "distinct (?b @ [?k])" using dq ne by simp
  then have knb: "?k \<notin> set ?b" by simp
  have Nd: "distinct ?N" by (rule novel_distinct)
  have Ndisj: "set ?N \<inter> (set ?b \<union> ?C) = {}" by (rule novel_disjoint)
  have NK: "set ?N \<subseteq> keys_of (discovered_node w ?k)" by (rule novel_keys_of)
  have c0: "count_list (console p) k = 0" if "k \<notin> ?C"
    using that o by (auto simp: once_def count_list_0_iff)
  show "once k (crawlHyper w ?k (p\<lparr>memory := (memory p)\<lparr>queue := ?b\<rparr>\<rparr>))"
    unfolding once_def turn_fields
  proof (intro conjI impI)
    show "distinct (?b @ ?N)" using db Nd Ndisj by auto
  next
    assume "k \<in> insert ?k ?C"
    then show "k \<notin> set (?b @ ?N)"
    proof
      assume "k = ?k"
      with knb NK self show ?thesis by auto
    next
      assume "k \<in> ?C"
      with o sq Ndisj show ?thesis by (auto simp: once_def)
    qed
  next
    assume "k \<in> set (console p @ [?k])"
    with o show "k \<in> insert ?k ?C" by (auto simp: once_def)
  next
    show "count_list (console p @ [?k]) k \<le> 1"
    proof (cases "k = ?k")
      case True
      then have "k \<in> set ?q" using sq by simp
      with o have "k \<notin> ?C" by (auto simp: once_def)
      with c0 True show ?thesis by simp
    next
      case False
      with o show ?thesis by (simp add: once_def)
    qed
  qed
qed

subsection \<open>Whole runs\<close>

lemma explored_empty: "crawlSet q = {} \<Longrightarrow> explored disc w q"
  by (simp add: explored_def)

lemma pleco_explored:
  assumes "pleco e cwd = Some s'"
  shows "explored discovered (hyperdrive e) (crawl_queue s')"
proof -
  have "explored discovered (hyperdrive e) (fst (add new_CrawlQueue [cwd]))"
    by (rule explored_empty) (simp add: add_crawlSet new_CrawlQueue_def)
  with assms show ?thesis
    unfolding pleco_def using pleco_loop_explored by fastforce
qed

lemma explored_final:
  assumes "explored disc w q" and "queue q = []" and "a \<in> crawlSet q" and "b \<in> keys_of (disc w a)"
  shows "b \<in> crawlSet q"
  using assms by (auto simp: explored_def)

lemma count_list_distinct:
  assumes "distinct xs" and "x \<in> set xs"
  shows "count_list xs x = 1"
  using assms by (induction xs) (auto simp: count_list_0_iff)

lemma pleco_visits_once:
  assumes fin: "finite (dom (hyperdrive e))"
  shows "\<exists>s. pleco e cwd = Some s \<and> queue (crawl_queue s) = [] \<and> frontier_inv (crawl_queue s)
           \<and> distinct (printed s) \<and> set (printed s) = crawlSet (crawl_queue s)
           \<and> keys_of [cwd] \<subseteq> crawlSet (crawl_queue s)
           \<and> explored discovered (hyperdrive e) (crawl_queue s)"
  using pleco_total [OF fin, of cwd] pleco_explored [of e cwd] by blast

lemma exhaustInput_frontier:
  "frontier_inv m \<Longrightarrow>
     frontier_inv (exhaustInput fetch argv m) \<and> crawlSet (exhaustInput fetch argv m) = crawlSet m"
proof (induction argv arbitrary: m)
  case Nil
  then show ?case by simp
next
  case (Cons uri uris)
  show ?case
  proof (cases "HTTP_SCHEME uri")
    case True
    show ?thesis
    proof (cases "fetch uri")
      case None
      with True Cons show ?thesis by simp
    next
      case (Some content)
      have "frontier_inv (fst (add m (scrapeURIs content)))"
        using Cons.prems by (rule add_frontier_inv)
      from Cons.IH [OF this] True Some show ?thesis
        by (simp add: addQueue_add add_crawlSet)
    qed
  next
    case False
    show ?thesis
    proof (cases "HYPER_SCHEME uri")
      case True
      have "frontier_inv (fst (add m [uri]))"
        using Cons.prems by (rule add_frontier_inv)
      from Cons.IH [OF this] True False show ?thesis
        by (simp add: addQueue_add add_crawlSet)
    next
      case no: False
      with False Cons show ?thesis by simp
    qed
  qed
qed

lemma main_total:
  assumes fin: "finite (dom w)"
  shows "\<exists>p. main fetch w argv = Some p \<and> queue (memory p) = []
           \<and> set (console p) = crawlSet (memory p)
           \<and> set (queue (exhaustInput fetch argv new_CrawlQueue)) \<subseteq> crawlSet (memory p)
           \<and> explored discovered_node w (memory p)
           \<and> (\<forall>k. k \<notin> keys_of (discovered_node w k) \<longrightarrow> count_list (console p) k \<le> 1)"
proof -
  let ?m0 = "exhaustInput fetch argv new_CrawlQueue"
  let ?p0 = "\<lparr>memory = ?m0, console = []\<rparr>"
  let ?K = "set (queue ?m0) \<union> (\<Union>k. keys_of (discovered_node w k))"
  have m0: "frontier_inv ?m0" and c0: "crawlSet ?m0 = {}"
    using exhaustInput_frontier [OF frontier_inv_new, of fetch argv]
    by (simp_all add: new_CrawlQueue_def)
  have d0: "distinct (queue ?m0)" using m0 by (simp add: frontier_inv_def)
  have finK: "finite ?K"
    using finite_discovered_node_keys [OF fin] by simp
  have closed: "\<And>k. keys_of (discovered_node w k) \<subseteq> ?K" by auto
  have "distinct (queue (memory ?p0))" using d0 by simp
  moreover have "set (queue (memory ?p0)) \<subseteq> ?K" by auto
  moreover have "set (console ?p0) = crawlSet (memory ?p0)" using c0 by simp
  ultimately obtain p where p: "exhaustQueue w ?p0 = Some p" "queue (memory p) = []"
      "set (console p) = crawlSet (memory p)"
      "set (queue (memory ?p0)) \<union> crawlSet (memory ?p0) \<subseteq> crawlSet (memory p)"
    using exhaustQueue_total [OF finK closed, of ?p0] by blast
  have "explored discovered_node w (memory ?p0)"
    by (rule explored_empty) (simp add: c0)
  with p(1) have ex: "explored discovered_node w (memory p)"
    by (rule exhaustQueue_explored)
  have on: "count_list (console p) k \<le> 1" if "k \<notin> keys_of (discovered_node w k)" for k
  proof -
    have "once k ?p0" using d0 c0 by (simp add: once_def)
    with p(1) have "once k p" using that by (rule exhaustQueue_once)
    then show ?thesis by (simp add: once_def)
  qed
  from p ex on show ?thesis unfolding main_def by auto
qed

subsection \<open>The Frontier invariant in \<^verbatim>\<open>index.js\<close>\<close>

text \<open>
  The invariant holds for the new queue (\<open>frontier_inv_new\<close>) and is kept by \<^verbatim>\<open>add\<close>
  (\<open>add_frontier_inv\<close>), by the iterator, which hands out a key that was not crawled before,
  and by the crawl of a drive. The iterator hands out the key that was queued last.
\<close>

lemma iterator_next_frontier_inv:
  assumes "frontier_inv q" and "iterator_next q = Some (k, q1)"
  shows "frontier_inv q1 \<and> k \<in> crawlSet q1 \<and> k \<notin> set (queue q1) \<and> k \<notin> crawlSet q"
proof -
  from assms(2) have ne: "queue q \<noteq> []"
    by (auto simp: iterator_next_def split: if_splits)
  from assms(2) have k: "k = last (queue q)"
    and q1: "q1 = \<lparr>queue = butlast (queue q), crawlSet = insert (last (queue q)) (crawlSet q)\<rparr>"
    unfolding iterator_next_Some [OF ne] by auto
  have sq: "set (queue q) = insert k (set (butlast (queue q)))"
    unfolding k using ne by (rule set_butlast_last)
  from assms(1) have dq: "distinct (queue q)" and disj: "set (queue q) \<inter> crawlSet q = {}"
    by (simp_all add: frontier_inv_def)
  have "distinct (butlast (queue q) @ [last (queue q)])" using dq ne by simp
  then have knb: "k \<notin> set (butlast (queue q))" unfolding k by simp
  have db: "distinct (butlast (queue q))" using dq by (rule distinct_butlast)
  from sq disj have "k \<notin> crawlSet q" by auto
  with db knb sq disj show ?thesis unfolding q1 frontier_inv_def k by auto
qed

lemma crawl_frontier_inv:
  assumes "frontier_inv q"
  shows "frontier_inv (crawl w k q)"
  unfolding crawl_discovered using assms by (rule add_frontier_inv)

lemma iterator_next_lifo:
  "iterator_next (q\<lparr>queue := queue q @ [k]\<rparr>) = Some (k, q\<lparr>crawlSet := insert k (crawlSet q)\<rparr>)"
  by (simp add: iterator_next_def Let_def)

section \<open>Termination\<close>

lemma distinct_count_list:
  assumes "\<And>k. count_list xs k \<le> 1"
  shows "distinct xs"
  using assms
proof (induction xs)
  case Nil
  show ?case by simp
next
  case (Cons x xs)
  have "count_list xs k \<le> 1" for k
    using Cons.prems [of k] by (simp split: if_splits)
  then have "distinct xs" by (rule Cons.IH)
  moreover have "count_list xs x = 0"
    using Cons.prems [of x] by simp
  then have "x \<notin> set xs" by (simp add: count_list_0_iff)
  ultimately show ?case by simp
qed

lemma count_list_ge:
  assumes "x \<in> set xs" and "count_list xs x \<le> 1"
  shows "count_list xs x = 1"
proof -
  from assms(1) have "count_list xs x \<noteq> 0" by (simp add: count_list_0_iff)
  with assms(2) show ?thesis by simp
qed

text \<open>
  C3. When the drives are finitely many, both crawls return with an empty queue. The
  command \<^verbatim>\<open>pleco\<close> prints no key twice; when its seed is the key \<open>a\<close> and the drive \<open>a\<close> refers
  to the key \<open>b\<close>, it crawls \<open>a\<close> and \<open>b\<close> exactly once each, whether or not \<open>b\<close> refers back
  to \<open>a\<close>. The Node script crawls no key twice when no drive refers to itself; when the seed
  input queued \<open>a\<close>, the drive \<open>a\<close> refers to \<open>b\<close>, and neither refers to itself, it crawls \<open>a\<close>
  and \<open>b\<close> exactly once each.
\<close>

theorem crawl_terminates:
  "(finite (dom (hyperdrive e)) \<longrightarrow>
      (\<exists>s. pleco e cwd = Some s \<and> queue (crawl_queue s) = [] \<and> distinct (printed s)
         \<and> (extractKey cwd = Some a \<and> b \<in> keys_of (discovered (hyperdrive e) a)
              \<longrightarrow> count_list (printed s) a = 1 \<and> count_list (printed s) b = 1)))
   \<and> (finite (dom w) \<longrightarrow>
      (\<exists>p. main fetch w argv = Some p \<and> queue (memory p) = []
         \<and> ((\<forall>k. k \<notin> keys_of (discovered_node w k)) \<longrightarrow> distinct (console p))
         \<and> (a \<in> set (queue (exhaustInput fetch argv new_CrawlQueue))
              \<and> b \<in> keys_of (discovered_node w a)
              \<and> a \<notin> keys_of (discovered_node w a) \<and> b \<notin> keys_of (discovered_node w b)
              \<longrightarrow> count_list (console p) a = 1 \<and> count_list (console p) b = 1)))"
proof (intro conjI impI)
  assume "finite (dom (hyperdrive e))"
  then obtain s where s: "pleco e cwd = Some s" "queue (crawl_queue s) = []"
      "distinct (printed s)" "set (printed s) = crawlSet (crawl_queue s)"
      "keys_of [cwd] \<subseteq> crawlSet (crawl_queue s)"
      "explored discovered (hyperdrive e) (crawl_queue s)"
    using pleco_visits_once [of e cwd] by blast
  have "count_list (printed s) a = 1 \<and> count_list (printed s) b = 1"
    if h: "extractKey cwd = Some a \<and> b \<in> keys_of (discovered (hyperdrive e) a)"
  proof -
    from h have "a \<in> keys_of [cwd]" by (simp add: keys_of_iff)
    with s(5) have a: "a \<in> crawlSet (crawl_queue s)" by blast
    from s(6) s(2) a h have b: "b \<in> crawlSet (crawl_queue s)" by (blast intro: explored_final)
    from a b s(3,4) show ?thesis by (simp add: count_list_distinct)
  qed
  with s show "\<exists>s. pleco e cwd = Some s \<and> queue (crawl_queue s) = [] \<and> distinct (printed s)
         \<and> (extractKey cwd = Some a \<and> b \<in> keys_of (discovered (hyperdrive e) a)
              \<longrightarrow> count_list (printed s) a = 1 \<and> count_list (printed s) b = 1)"
    by blast
next
  assume "finite (dom w)"
  then obtain p where p: "main fetch w argv = Some p" "queue (memory p) = []"
      "set (console p) = crawlSet (memory p)"
      "set (queue (exhaustInput fetch argv new_CrawlQueue)) \<subseteq> crawlSet (memory p)"
      "explored discovered_node w (memory p)"
      "\<forall>k. k \<notin> keys_of (discovered_node w k) \<longrightarrow> count_list (console p) k \<le> 1"
    using main_total [of w fetch argv] by blast
  have d: "distinct (console p)" if "\<forall>k. k \<notin> keys_of (discovered_node w k)"
    using that p(6) by (intro distinct_count_list) blast
  have "count_list (console p) a = 1 \<and> count_list (console p) b = 1"
    if h: "a \<in> set (queue (exhaustInput fetch argv new_CrawlQueue))
              \<and> b \<in> keys_of (discovered_node w a)
              \<and> a \<notin> keys_of (discovered_node w a) \<and> b \<notin> keys_of (discovered_node w b)"
  proof -
    from h p(4) have a: "a \<in> crawlSet (memory p)" by blast
    from p(5) p(2) a h have b: "b \<in> crawlSet (memory p)" by (blast intro: explored_final)
    from a b p(3) have "a \<in> set (console p)" "b \<in> set (console p)" by simp_all
    moreover from h p(6) have "count_list (console p) a \<le> 1" "count_list (console p) b \<le> 1"
      by blast+
    ultimately show ?thesis by (simp add: count_list_ge)
  qed
  with p d show "\<exists>p. main fetch w argv = Some p \<and> queue (memory p) = []
         \<and> ((\<forall>k. k \<notin> keys_of (discovered_node w k)) \<longrightarrow> distinct (console p))
         \<and> (a \<in> set (queue (exhaustInput fetch argv new_CrawlQueue))
              \<and> b \<in> keys_of (discovered_node w a)
              \<and> a \<notin> keys_of (discovered_node w a) \<and> b \<notin> keys_of (discovered_node w b)
              \<longrightarrow> count_list (console p) a = 1 \<and> count_list (console p) b = 1)"
    by blast
qed

lemma extractKey_address:
  assumes "Key k"
  shows "extractKey (''hyper://'' @ k) = Some k"
proof -
  from assms have "take 64 k = k" by (simp add: Key_def)
  with assms show ?thesis by (simp add: extractKey_eq)
qed

lemma dom_cycle: "dom cycle \<subseteq> {key_a, key_b}"
  by (auto simp: cycle_def split: if_splits)

lemma cycle_no_self: "k \<notin> keys_of (discovered_node cycle k)"
proof (cases "k = key_a \<or> k = key_b")
  case True
  have "key_a \<notin> keys_of (discovered_node cycle key_a)" by code_simp
  moreover have "key_b \<notin> keys_of (discovered_node cycle key_b)" by code_simp
  ultimately show ?thesis using True by blast
next
  case False
  then have "cycle k = None" by (simp add: cycle_def)
  then show ?thesis by (simp add: discovered_node_outside keys_of_Nil)
qed

theorem crawl_terminates_witness:
  "finite (dom cycle)
   \<and> (\<exists>s. pleco (plain_env cycle) (''hyper://'' @ key_a) = Some s \<and> queue (crawl_queue s) = []
        \<and> count_list (printed s) key_a = 1 \<and> count_list (printed s) key_b = 1)
   \<and> (\<exists>p. main (\<lambda>u. None) cycle [''hyper://'' @ key_a] = Some p \<and> queue (memory p) = []
        \<and> distinct (console p)
        \<and> count_list (console p) key_a = 1 \<and> count_list (console p) key_b = 1)
   \<and> map_option printed (pleco (plain_env cycle) (''hyper://'' @ key_a)) = Some [key_a, key_b]
   \<and> map_option console (main (\<lambda>u. None) cycle [''hyper://'' @ key_a]) = Some [key_a, key_b]"
proof -
  have fin: "finite (dom cycle)"
    using dom_cycle by (rule finite_subset) simp
  have hd: "hyperdrive (plain_env cycle) = cycle" by (simp add: plain_env_def)
  have seed: "extractKey (''hyper://'' @ key_a) = Some key_a"
    using Key_key_a by (rule extractKey_address)
  have ab: "key_b \<in> keys_of (discovered cycle key_a)" by code_simp
  have seeded: "key_a \<in> set (queue (exhaustInput (\<lambda>u. None) [''hyper://'' @ key_a] new_CrawlQueue))"
    by code_simp
  have ab': "key_b \<in> keys_of (discovered_node cycle key_a)" by code_simp
  note inst = crawl_terminates [of "plain_env cycle" "''hyper://'' @ key_a" key_a key_b cycle
      "\<lambda>u. None" "[''hyper://'' @ key_a]"]
  from inst fin seed ab
  have one: "\<exists>s. pleco (plain_env cycle) (''hyper://'' @ key_a) = Some s \<and> queue (crawl_queue s) = []
        \<and> count_list (printed s) key_a = 1 \<and> count_list (printed s) key_b = 1"
    unfolding hd by blast
  from inst fin seeded ab' cycle_no_self
  have two: "\<exists>p. main (\<lambda>u. None) cycle [''hyper://'' @ key_a] = Some p \<and> queue (memory p) = []
        \<and> distinct (console p)
        \<and> count_list (console p) key_a = 1 \<and> count_list (console p) key_b = 1"
    by blast
  have three: "map_option printed (pleco (plain_env cycle) (''hyper://'' @ key_a)) = Some [key_a, key_b]"
    by code_simp
  have four: "map_option console (main (\<lambda>u. None) cycle [''hyper://'' @ key_a]) = Some [key_a, key_b]"
    by code_simp
  from fin one two three four show ?thesis by blast
qed

section \<open>Failures of single drives and files\<close>

lemma scrape_targets_skip:
  "scrape_targets d targets q = scrape_targets d (filter (\<lambda>t. readFile d t \<noteq> None) targets) q"
  by (induction targets arbitrary: q) (auto split: option.splits)

lemma scrape_entries_skip:
  "scrape_entries d entries m = scrape_entries d (filter (\<lambda>t. readFile d t \<noteq> None) entries) m"
  by (induction entries arbitrary: m) (auto split: option.splits)

lemma discovered_fails:
  assumes "w key = None \<or> (\<exists>d. w key = Some d \<and> readdir d = None)"
  shows "discovered w key = []" and "discovered_node w key = []"
  using assms by (auto simp: discovered_def discovered_node_def)

lemma crawl_fails:
  assumes "w key = None \<or> (\<exists>d. w key = Some d \<and> readdir d = None)"
  shows "crawl w key q = q"
  using assms by (auto simp: crawl_discovered discovered_def add_Nil)

lemma crawlHyper_fails:
  assumes "w key = None \<or> (\<exists>d. w key = Some d \<and> readdir d = None)"
  shows "crawlHyper w key p =
     p\<lparr>console := console p @ [key], memory := (memory p)\<lparr>crawlSet := insert key (crawlSet (memory p))\<rparr>\<rparr>"
  using assms by (auto simp: crawlHyper_discovered discovered_node_def)

lemma pleco_loop_next:
  assumes "iterator_next (crawl_queue s) = Some (key, q1)"
  shows "pleco_loop e s = pleco_loop e (loop_body e key (s\<lparr>crawl_queue := q1\<rparr>))"
  by (subst pleco_loop.simps) (simp add: assms)

lemma explored_closed:
  assumes "explored disc w q" and "queue q = []"
  shows "\<forall>k \<in> crawlSet q. keys_of (disc w k) \<subseteq> crawlSet q"
  using assms by (simp add: explored_def)

text \<open>
  C2. A key whose handle or listing throws is in the crawl set when its crawl begins (in
  \<^verbatim>\<open>index.js\<close>) or ends (in the Node script), its crawl adds no key, and the loop goes on
  with the rest of the queue. A file whose read throws is skipped: the result is the one for
  the listing without such files. With finitely many drives, failing or not, both runs
  return with an empty queue, with every key crawled that the seed or a crawled drive refers
  to, and no failing key crawled twice.
\<close>

theorem failure_tolerance:
  "((hyperdrive e key = None \<or> (\<exists>d. hyperdrive e key = Some d \<and> readdir d = None))
      \<and> iterator_next (crawl_queue s) = Some (key, q1) \<longrightarrow>
        key \<in> crawlSet q1 \<and> crawl (hyperdrive e) key q1 = q1
        \<and> crawl_queue (loop_body e key (s\<lparr>crawl_queue := q1\<rparr>)) = q1
        \<and> pleco_loop e s = pleco_loop e (loop_body e key (s\<lparr>crawl_queue := q1\<rparr>)))
   \<and> scrape_targets d targets q = scrape_targets d (filter (\<lambda>t. readFile d t \<noteq> None) targets) q
   \<and> ((w key = None \<or> (\<exists>d. w key = Some d \<and> readdir d = None)) \<longrightarrow>
        crawlHyper w key p =
          p\<lparr>console := console p @ [key],
            memory := (memory p)\<lparr>crawlSet := insert key (crawlSet (memory p))\<rparr>\<rparr>)
   \<and> scrape_entries d entries m = scrape_entries d (filter (\<lambda>t. readFile d t \<noteq> None) entries) m
   \<and> (finite (dom (hyperdrive e)) \<longrightarrow>
        (\<exists>s'. pleco e cwd = Some s' \<and> queue (crawl_queue s') = []
           \<and> distinct (printed s') \<and> set (printed s') = crawlSet (crawl_queue s')
           \<and> keys_of [cwd] \<subseteq> crawlSet (crawl_queue s')
           \<and> (\<forall>k \<in> crawlSet (crawl_queue s').
                 keys_of (discovered (hyperdrive e) k) \<subseteq> crawlSet (crawl_queue s'))))
   \<and> (finite (dom w) \<longrightarrow>
        (\<exists>p'. main fetch w argv = Some p' \<and> queue (memory p') = []
           \<and> set (console p') = crawlSet (memory p')
           \<and> set (queue (exhaustInput fetch argv new_CrawlQueue)) \<subseteq> crawlSet (memory p')
           \<and> (\<forall>k \<in> crawlSet (memory p'). keys_of (discovered_node w k) \<subseteq> crawlSet (memory p'))
           \<and> ((w key = None \<or> (\<exists>d. w key = Some d \<and> readdir d = None))
                \<longrightarrow> count_list (console p') key \<le> 1)))"
proof -
  have c1: "(hyperdrive e key = None \<or> (\<exists>d. hyperdrive e key = Some d \<and> readdir d = None))
      \<and> iterator_next (crawl_queue s) = Some (key, q1) \<longrightarrow>
        key \<in> crawlSet q1 \<and> crawl (hyperdrive e) key q1 = q1
        \<and> crawl_queue (loop_body e key (s\<lparr>crawl_queue := q1\<rparr>)) = q1
        \<and> pleco_loop e s = pleco_loop e (loop_body e key (s\<lparr>crawl_queue := q1\<rparr>))"
  proof
    assume h: "(hyperdrive e key = None \<or> (\<exists>d. hyperdrive e key = Some d \<and> readdir d = None))
      \<and> iterator_next (crawl_queue s) = Some (key, q1)"
    then have c: "crawl (hyperdrive e) key q1 = q1" by (simp add: crawl_fails)
    from h have "key \<in> crawlSet q1"
      by (auto simp: iterator_next_def Let_def split: if_splits)
    moreover have "crawl_queue (loop_body e key (s\<lparr>crawl_queue := q1\<rparr>)) = q1"
      by (simp add: loop_body_fields c)
    moreover have "pleco_loop e s = pleco_loop e (loop_body e key (s\<lparr>crawl_queue := q1\<rparr>))"
      using h by (simp add: pleco_loop_next)
    ultimately show "key \<in> crawlSet q1 \<and> crawl (hyperdrive e) key q1 = q1
        \<and> crawl_queue (loop_body e key (s\<lparr>crawl_queue := q1\<rparr>)) = q1
        \<and> pleco_loop e s = pleco_loop e (loop_body e key (s\<lparr>crawl_queue := q1\<rparr>))"
      using c by blast
  qed
  have c2: "scrape_targets d targets q
      = scrape_targets d (filter (\<lambda>t. readFile d t \<noteq> None) targets) q"
    by (rule scrape_targets_skip)
  have c3: "(w key = None \<or> (\<exists>d. w key = Some d \<and> readdir d = None)) \<longrightarrow>
        crawlHyper w key p =
          p\<lparr>console := console p @ [key],
            memory := (memory p)\<lparr>crawlSet := insert key (crawlSet (memory p))\<rparr>\<rparr>"
    using crawlHyper_fails [of w key p] by blast
  have c4: "scrape_entries d entries m
      = scrape_entries d (filter (\<lambda>t. readFile d t \<noteq> None) entries) m"
    by (rule scrape_entries_skip)
  have c5: "finite (dom (hyperdrive e)) \<longrightarrow>
        (\<exists>s'. pleco e cwd = Some s' \<and> queue (crawl_queue s') = []
           \<and> distinct (printed s') \<and> set (printed s') = crawlSet (crawl_queue s')
           \<and> keys_of [cwd] \<subseteq> crawlSet (crawl_queue s')
           \<and> (\<forall>k \<in> crawlSet (crawl_queue s').
                 keys_of (discovered (hyperdrive e) k) \<subseteq> crawlSet (crawl_queue s')))"
  proof
    assume "finite (dom (hyperdrive e))"
    then obtain s' where s: "pleco e cwd = Some s'" "queue (crawl_queue s') = []"
        "distinct (printed s')" "set (printed s') = crawlSet (crawl_queue s')"
        "keys_of [cwd] \<subseteq> crawlSet (crawl_queue s')"
        "explored discovered (hyperdrive e) (crawl_queue s')"
      using pleco_visits_once [of e cwd] by blast
    from explored_closed [OF s(6) s(2)] s
    show "\<exists>s'. pleco e cwd = Some s' \<and> queue (crawl_queue s') = []
           \<and> distinct (printed s') \<and> set (printed s') = crawlSet (crawl_queue s')
           \<and> keys_of [cwd] \<subseteq> crawlSet (crawl_queue s')
           \<and> (\<forall>k \<in> crawlSet (crawl_queue s').
                 keys_of (discovered (hyperdrive e) k) \<subseteq> crawlSet (crawl_queue s'))"
      by blast
  qed
  have c6: "finite (dom w) \<longrightarrow>
        (\<exists>p'. main fetch w argv = Some p' \<and> queue (memory p') = []
           \<and> set (console p') = crawlSet (memory p')
           \<and> set (queue (exhaustInput fetch argv new_CrawlQueue)) \<subseteq> crawlSet (memory p')
           \<and> (\<forall>k \<in> crawlSet (memory p'). keys_of (discovered_node w k) \<subseteq> crawlSet (memory p'))
           \<and> ((w key = None \<or> (\<exists>d. w key = Some d \<and> readdir d = None))
                \<longrightarrow> count_list (console p') key \<le> 1))"
  proof
    assume "finite (dom w)"
    then obtain p' where p: "main fetch w argv = Some p'" "queue (memory p') = []"
        "set (console p') = crawlSet (memory p')"
        "set (queue (exhaustInput fetch argv new_CrawlQueue)) \<subseteq> crawlSet (memory p')"
        "explored discovered_node w (memory p')"
        "\<forall>k. k \<notin> keys_of (discovered_node w k) \<longrightarrow> count_list (console p') k \<le> 1"
      using main_total [of w fetch argv] by blast
    have "count_list (console p') key \<le> 1"
      if "w key = None \<or> (\<exists>d. w key = Some d \<and> readdir d = None)"
    proof -
      from that have "discovered_node w key = []" by (rule discovered_fails)
      then have "key \<notin> keys_of (discovered_node w key)" by (simp add: keys_of_Nil)
      with p(6) show ?thesis by blast
    qed
    with explored_closed [OF p(5) p(2)] p
    show "\<exists>p'. main fetch w argv = Some p' \<and> queue (memory p') = []
           \<and> set (console p') = crawlSet (memory p')
           \<and> set (queue (exhaustInput fetch argv new_CrawlQueue)) \<subseteq> crawlSet (memory p')
           \<and> (\<forall>k \<in> crawlSet (memory p'). keys_of (discovered_node w k) \<subseteq> crawlSet (memory p'))
           \<and> ((w key = None \<or> (\<exists>d. w key = Some d \<and> readdir d = None))
                \<longrightarrow> count_list (console p') key \<le> 1)"
      by blast
  qed
  show ?thesis by (intro conjI c1 c2 c3 c4 c5 c6)
qed

lemma dom_broken: "dom broken \<subseteq> {key_a, key_b}"
  by (auto simp: broken_def split: if_splits)

theorem failure_tolerance_witness:
  "(\<exists>d. broken key_b = Some d \<and> readdir d = None)
   \<and> iterator_next \<lparr>queue = [key_b], crawlSet = {key_a}\<rparr>
       = Some (key_b, \<lparr>queue = [], crawlSet = {key_b, key_a}\<rparr>)
   \<and> crawl broken key_b \<lparr>queue = [], crawlSet = {key_b, key_a}\<rparr>
       = \<lparr>queue = [], crawlSet = {key_b, key_a}\<rparr>
   \<and> crawlHyper broken key_b \<lparr>memory = \<lparr>queue = [], crawlSet = {key_a}\<rparr>, console = [key_a]\<rparr>
       = \<lparr>memory = \<lparr>queue = [], crawlSet = {key_b, key_a}\<rparr>, console = [key_a, key_b]\<rparr>
   \<and> finite (dom broken)
   \<and> (\<exists>s'. pleco (plain_env broken) (''hyper://'' @ key_a) = Some s' \<and> queue (crawl_queue s') = []
         \<and> distinct (printed s'))
   \<and> (\<exists>p'. main (\<lambda>u. None) broken [''hyper://'' @ key_a] = Some p' \<and> queue (memory p') = []
         \<and> count_list (console p') key_b \<le> 1)
   \<and> map_option printed (pleco (plain_env broken) (''hyper://'' @ key_a)) = Some [key_a, key_b]
   \<and> map_option console (main (\<lambda>u. None) broken [''hyper://'' @ key_a]) = Some [key_a, key_b]"
proof -
  let ?s = "\<lparr>crawl_queue = \<lparr>queue = [key_b], crawlSet = {key_a}\<rparr>, mounted = 0, printed = [key_a]\<rparr>"
  let ?q1 = "\<lparr>queue = [], crawlSet = {key_b, key_a}\<rparr>"
  let ?p = "\<lparr>memory = \<lparr>queue = [], crawlSet = {key_a}\<rparr>, console = [key_a]\<rparr>"
  have fails: "\<exists>d. broken key_b = Some d \<and> readdir d = None"
    using key_a_neq_key_b by (simp add: broken_def)
  have hd: "hyperdrive (plain_env broken) = broken" by (simp add: plain_env_def)
  have nx: "iterator_next (crawl_queue ?s) = Some (key_b, ?q1)"
    by (simp add: iterator_next_def Let_def)
  have fin: "finite (dom broken)"
    using dom_broken by (rule finite_subset) simp
  note inst = failure_tolerance [of "plain_env broken" key_b ?s ?q1 _ _ _ broken ?p _ _
      "''hyper://'' @ key_a" "\<lambda>u. None" "[''hyper://'' @ key_a]"]
  from inst fails nx have c: "crawl broken key_b ?q1 = ?q1"
    unfolding hd by blast
  from inst fails
  have "crawlHyper broken key_b ?p
      = ?p\<lparr>console := console ?p @ [key_b],
           memory := (memory ?p)\<lparr>crawlSet := insert key_b (crawlSet (memory ?p))\<rparr>\<rparr>"
    by blast
  then have ch: "crawlHyper broken key_b ?p
      = \<lparr>memory = \<lparr>queue = [], crawlSet = {key_b, key_a}\<rparr>, console = [key_a, key_b]\<rparr>"
    by simp
  from inst fin
  have run1: "\<exists>s'. pleco (plain_env broken) (''hyper://'' @ key_a) = Some s'
         \<and> queue (crawl_queue s') = [] \<and> distinct (printed s')"
    unfolding hd by blast
  from inst fails fin
  have run2: "\<exists>p'. main (\<lambda>u. None) broken [''hyper://'' @ key_a] = Some p' \<and> queue (memory p') = []
         \<and> count_list (console p') key_b \<le> 1"
    by blast
  have e1: "map_option printed (pleco (plain_env broken) (''hyper://'' @ key_a)) = Some [key_a, key_b]"
    by code_simp
  have e2: "map_option console (main (\<lambda>u. None) broken [''hyper://'' @ key_a]) = Some [key_a, key_b]"
    by code_simp
  from nx have nx': "iterator_next \<lparr>queue = [key_b], crawlSet = {key_a}\<rparr> = Some (key_b, ?q1)"
    by simp
  from fails nx' c ch fin run1 run2 e1 e2 show ?thesis by blast
qed

section \<open>A drive that refers to itself\<close>

text \<open>
  C1 at a drive whose own page holds its own address. The Node script adds a key to
  \<^verbatim>\<open>crawled\<close> in the \<^verbatim>\<open>finally\<close> block of \<^verbatim>\<open>crawlHyper\<close>, behind the scraping: the key is queued
  again by its own crawl, is then both queued and crawled, and is crawled a second time.
  \<^verbatim>\<open>index.js\<close> crawls it once.
\<close>

theorem selfref_crawled_twice:
  "map_option console (main (\<lambda>u. None) selfref [''hyper://'' @ key_a]) = Some [key_a, key_a]
   \<and> \<not> frontier_inv (memory (crawlHyper selfref key_a \<lparr>memory = \<lparr>queue = [], crawlSet = {}\<rparr>, console = []\<rparr>))
   \<and> map_option printed (pleco (plain_env selfref) (''hyper://'' @ key_a)) = Some [key_a]"
  by code_simp

text \<open>
  C7 at the same drive. The iterator of \<^verbatim>\<open>index.js\<close> hands out the last key of the queue with
  the key already in the crawl set, and the crawl of the drive does not queue it again. In
  the Node script the crawl of the popped key queues that key again: it was not in
  \<^verbatim>\<open>crawled\<close> while its files were scraped.
\<close>

theorem crawlHyper_records_after_crawl:
  "queue (memory (crawlHyper selfref key_a \<lparr>memory = \<lparr>queue = [], crawlSet = {}\<rparr>, console = []\<rparr>)) = [key_a]
   \<and> map_option fst (iterator_next \<lparr>queue = [key_a], crawlSet = {}\<rparr>) = Some key_a
   \<and> map_option (\<lambda>r. key_a \<in> crawlSet (snd r)) (iterator_next \<lparr>queue = [key_a], crawlSet = {}\<rparr>) = Some True
   \<and> queue (crawl selfref key_a \<lparr>queue = [], crawlSet = {key_a}\<rparr>) = []"
  by code_simp

end
